theory Spec2Isabelle
  imports Main "HOL-Library.Sublist"
begin

section \<open>The persisted send history (output/messaged_restaurants.json)\<close>

text \<open>
  Both \<^verbatim>\<open>src/steps/src/send-dm.ts\<close> (the command-line script, suffix \<open>_cli\<close> below) and
  \<^verbatim>\<open>src/steps/send-dm.step.ts\<close> (the event step, suffix \<open>_step\<close>) keep the send history in
  one JSON file of type \<^verbatim>\<open>Record<string, Record<string, Record<string, boolean>>>\<close>:
  date \<open>\<rightarrow>\<close> hour key \<open>\<rightarrow>\<close> restaurant name \<open>\<rightarrow>\<close> flag.

  A JSON object is modelled by the list of its own properties in the order in which
  JavaScript enumerates them (\<^verbatim>\<open>Object.keys\<close>, \<^verbatim>\<open>Object.entries\<close>, \<^verbatim>\<open>for ... in\<close> and
  \<^verbatim>\<open>JSON.stringify\<close>): the property names that are array indices first, in ascending
  numeric order, then the other names in the order in which they were created.
\<close>

type_synonym 'v obj = "(string \<times> 'v) list"

text \<open>
  An array index is the decimal numeral, without leading zeros, of an integer from 0 to
  4294967294.
\<close>

definition isDigit :: "char \<Rightarrow> bool" where
  "isDigit ch = (ch \<in> set ''0123456789'')"

definition indexValue :: "string \<Rightarrow> int" where
  "indexValue k = foldl (\<lambda>a ch. 10 * a + (of_char ch - 48)) 0 k"

definition isArrayIndex :: "string \<Rightarrow> bool" where
  "isArrayIndex k =
     (k \<noteq> [] \<and> list_all isDigit k \<and> (length k = 1 \<or> hd k \<noteq> CHR ''0'')
      \<and> indexValue k < 4294967295)"

text \<open>
  \<open>comesBefore k k'\<close>: a new property \<open>k\<close> is enumerated before the existing property
  \<open>k'\<close>.
\<close>

definition comesBefore :: "string \<Rightarrow> string \<Rightarrow> bool" where
  "comesBefore k k' =
     (if isArrayIndex k' then isArrayIndex k \<and> indexValue k < indexValue k'
      else isArrayIndex k)"

text \<open>An own property \<^verbatim>\<open>o[k]\<close> read: \<open>None\<close> stands for no own property of that name.\<close>

definition getProp :: "'v obj \<Rightarrow> string \<Rightarrow> 'v option" where
  "getProp ob k = map_of ob k"

text \<open>
  \<^verbatim>\<open>o[k] = v\<close> where the assignment creates or updates an own property: an existing
  property keeps its place, a new one takes its place in the enumeration order.
\<close>

fun setProp :: "'v obj \<Rightarrow> string \<Rightarrow> 'v \<Rightarrow> 'v obj" where
  "setProp [] k v = [(k, v)]"
| "setProp ((k', v') # ps) k v =
     (if k' = k then (k, v) # ps
      else if getProp ps k = None \<and> comesBefore k k' then (k, v) # (k', v') # ps
      else (k', v') # setProp ps k v)"

text \<open>
  \<open>precedes k k'\<close>: the order of enumeration allows the property \<open>k\<close> before the property
  \<open>k'\<close>; an array index is preceded by smaller array indices only.
\<close>

definition precedes :: "string \<Rightarrow> string \<Rightarrow> bool" where
  "precedes k k' =
     (if isArrayIndex k' then isArrayIndex k \<and> indexValue k < indexValue k' else True)"

text \<open>
  \<^verbatim>\<open>JSON.parse\<close> of an object, from its members in the order of the text: each member
  defines an own property, a repeated name overwriting the earlier value.
\<close>

definition JSON_parse :: "(string \<times> 'v) list \<Rightarrow> 'v obj" where
  "JSON_parse members = foldl (\<lambda>ob (k, v). setProp ob k v) [] members"

text \<open>
  The names every object inherits from \<^verbatim>\<open>Object.prototype\<close>; each of them reads as a truthy
  value (a function, or the prototype itself) on an object without an own property of that
  name.
\<close>

definition prototypeNames :: "string list" where
  "prototypeNames =
     [''constructor'', ''hasOwnProperty'', ''isPrototypeOf'', ''propertyIsEnumerable'',
      ''toLocaleString'', ''toString'', ''valueOf'', ''__proto__'', ''__defineGetter__'',
      ''__defineSetter__'', ''__lookupGetter__'', ''__lookupSetter__'']"

text \<open>
  Truthiness of \<^verbatim>\<open>o[k]\<close> for an object of flags: the own property if there is one, the
  inherited one otherwise.
\<close>

definition truthyProp :: "bool obj \<Rightarrow> string \<Rightarrow> bool" where
  "truthyProp ob k =
     (case getProp ob k of Some flag \<Rightarrow> flag | None \<Rightarrow> k \<in> set prototypeNames)"

text \<open>
  \<^verbatim>\<open>o[k] = true\<close>: \<^verbatim>\<open>__proto__\<close> is inherited as an accessor, whose setter ignores a value
  that is not an object, so the assignment defines nothing unless the object has an own
  property of that name; every other name is created or updated.
\<close>

definition assignTrue :: "bool obj \<Rightarrow> string \<Rightarrow> bool obj" where
  "assignTrue ob k =
     (if k = ''__proto__'' \<and> getProp ob k = None then ob else setProp ob k True)"

text \<open>\<^verbatim>\<open>Object.keys(o)\<close>.\<close>

definition Object_keys :: "'v obj \<Rightarrow> string list" where
  "Object_keys ob = map fst ob"

type_synonym hourObj = "bool obj"
type_synonym dayObj = "hourObj obj"
type_synonym messagedData = "dayObj obj"

text \<open>
  What \<^verbatim>\<open>fs.existsSync\<close>, \<^verbatim>\<open>fs.readFileSync\<close> and \<^verbatim>\<open>JSON.parse\<close> can make of the file: it
  does not exist; it exists but reading or parsing it throws; it parses to a value.
\<close>

datatype messagedFile = Missing | Corrupt | Parsed messagedData

text \<open>
  The wall clock as the code reads it: \<^verbatim>\<open>new Date().toISOString().split('T')[0]\<close> and
  \<^verbatim>\<open>new Date().getHours()\<close>. The date has the form \<^verbatim>\<open>YYYY-MM-DD\<close> and the hour key ends in
  \<^verbatim>\<open>h\<close>: neither is an inherited property name, so \<^verbatim>\<open>data[today]\<close> and
  \<^verbatim>\<open>data[today][currentHourKey]\<close> read own properties.
\<close>

record clock =
  today :: string
  currentHour :: nat

text \<open>Decimal printing of a number inside a template literal.\<close>

definition digitChar :: "nat \<Rightarrow> char" where
  "digitChar d = ''0123456789'' ! d"

fun showNat :: "nat \<Rightarrow> string" where
  "showNat n = (if n < 10 then [digitChar n] else showNat (n div 10) @ [digitChar (n mod 10)])"

declare showNat.simps [simp del]

text \<open>\<^verbatim>\<open>const currentHourKey = `${currentHour}h`\<close>\<close>

definition currentHourKey :: "clock \<Rightarrow> string" where
  "currentHourKey c = showNat (currentHour c) @ ''h''"

record counts =
  hourly :: nat
  daily :: nat

text \<open>
  The loop \<^verbatim>\<open>for (const hour in messagedData[today])\<close> of \<^verbatim>\<open>getMessageCounts\<close>: the pair
  carried is \<^verbatim>\<open>(result.hourly, dailyCount)\<close>.
\<close>

fun countHours :: "dayObj \<Rightarrow> string \<Rightarrow> nat \<times> nat \<Rightarrow> nat \<times> nat" where
  "countHours [] key (h, d) = (h, d)"
| "countHours ((hour, names) # rest) key (h, d) =
     (let hourMessages = length (Object_keys names)
      in countHours rest key (if hour = key then hourMessages else h, d + hourMessages))"

text \<open>The body of the \<^verbatim>\<open>try\<close> block of \<^verbatim>\<open>getMessageCounts\<close> once the file has parsed.\<close>

definition countsOf :: "messagedData \<Rightarrow> clock \<Rightarrow> counts" where
  "countsOf messaged c =
     (case getProp messaged (today c) of
        None \<Rightarrow> \<lparr>hourly = 0, daily = 0\<rparr>
      | Some day \<Rightarrow>
          (let (h, d) = countHours day (currentHourKey c) (0, 0)
           in \<lparr>hourly = h, daily = d\<rparr>))"

text \<open>
  \<^verbatim>\<open>getMessageCounts\<close> of send-dm.ts (lines 537-572): the \<^verbatim>\<open>catch\<close> block logs with
  \<^verbatim>\<open>console.error\<close> and returns \<^verbatim>\<open>{ hourly: 0, daily: 0 }\<close>.
\<close>

definition getMessageCounts_cli :: "messagedFile \<Rightarrow> clock \<Rightarrow> counts" where
  "getMessageCounts_cli f c =
     (case f of
        Missing \<Rightarrow> \<lparr>hourly = 0, daily = 0\<rparr>
      | Corrupt \<Rightarrow> \<lparr>hourly = 0, daily = 0\<rparr>
      | Parsed messaged \<Rightarrow> countsOf messaged c)"

text \<open>
  Exceptions that leave a function of send-dm.step.ts. \<open>ReferenceError\<close>: the module-level
  functions \<^verbatim>\<open>getMessageCounts\<close>, \<^verbatim>\<open>saveMessagedRestaurant\<close> and \<^verbatim>\<open>isRestaurantMessaged\<close> of
  that file call \<^verbatim>\<open>logger.error\<close> in their \<^verbatim>\<open>catch\<close> blocks, and \<^verbatim>\<open>logger\<close> is bound only as a
  parameter of \<^verbatim>\<open>login\<close>, \<^verbatim>\<open>sendMessage\<close> and \<^verbatim>\<open>handler\<close>; so the \<^verbatim>\<open>catch\<close> block throws before
  its \<^verbatim>\<open>return\<close>.
\<close>

datatype error = ReferenceError | InitError | LoginError

text \<open>\<^verbatim>\<open>getMessageCounts\<close> of send-dm.step.ts (lines 560-593).\<close>

definition getMessageCounts_step :: "messagedFile \<Rightarrow> clock \<Rightarrow> error + counts" where
  "getMessageCounts_step f c =
     (case f of
        Missing \<Rightarrow> Inr \<lparr>hourly = 0, daily = 0\<rparr>
      | Corrupt \<Rightarrow> Inl ReferenceError
      | Parsed messaged \<Rightarrow> Inr (countsOf messaged c))"

text \<open>
  The nested loops of \<^verbatim>\<open>isRestaurantMessaged\<close> over all days and hours, returning at the
  first truthy \<^verbatim>\<open>messagedData[day][hour][restaurantName]\<close>.
\<close>

definition messagedIn :: "messagedData \<Rightarrow> string \<Rightarrow> bool" where
  "messagedIn messaged restaurantName =
     list_ex (\<lambda>(day, hours).
       list_ex (\<lambda>(hour, names). truthyProp names restaurantName) hours) messaged"

text \<open>
  \<^verbatim>\<open>isRestaurantMessaged\<close> of send-dm.ts (lines 608-628): the \<^verbatim>\<open>catch\<close> block returns
  \<^verbatim>\<open>false\<close>.
\<close>

definition isRestaurantMessaged_cli :: "messagedFile \<Rightarrow> string \<Rightarrow> bool" where
  "isRestaurantMessaged_cli f restaurantName =
     (case f of
        Missing \<Rightarrow> False
      | Corrupt \<Rightarrow> False
      | Parsed messaged \<Rightarrow> messagedIn messaged restaurantName)"

text \<open>\<^verbatim>\<open>isRestaurantMessaged\<close> of send-dm.step.ts (lines 630-649).\<close>

definition isRestaurantMessaged_step :: "messagedFile \<Rightarrow> string \<Rightarrow> error + bool" where
  "isRestaurantMessaged_step f restaurantName =
     (case f of
        Missing \<Rightarrow> Inr False
      | Corrupt \<Rightarrow> Inl ReferenceError
      | Parsed messaged \<Rightarrow> Inr (messagedIn messaged restaurantName))"

text \<open>
  The in-memory update of \<^verbatim>\<open>saveMessagedRestaurant\<close>: create \<^verbatim>\<open>data[today]\<close> and
  \<^verbatim>\<open>data[today][currentHourKey]\<close> when they are missing, then set
  \<^verbatim>\<open>data[today][currentHourKey][restaurantName] = true\<close>.
\<close>

definition markMessaged :: "messagedData \<Rightarrow> clock \<Rightarrow> string \<Rightarrow> messagedData" where
  "markMessaged messaged c restaurantName =
     (let day = (case getProp messaged (today c) of None \<Rightarrow> [] | Some d \<Rightarrow> d);
          names = (case getProp day (currentHourKey c) of None \<Rightarrow> [] | Some ns \<Rightarrow> ns)
      in setProp messaged (today c)
           (setProp day (currentHourKey c) (assignTrue names restaurantName)))"

text \<open>
  \<^verbatim>\<open>saveMessagedRestaurant\<close> of send-dm.ts (lines 575-605). \<open>writeOk\<close> says whether
  \<^verbatim>\<open>fs.writeFileSync\<close> succeeds; a failed write is taken to leave the file as it was. Every
  exception is caught and logged, and the function returns normally.
\<close>

definition saveMessagedRestaurant_cli ::
  "messagedFile \<Rightarrow> clock \<Rightarrow> bool \<Rightarrow> string \<Rightarrow> messagedFile" where
  "saveMessagedRestaurant_cli f c writeOk restaurantName =
     (case f of
        Missing \<Rightarrow> if writeOk then Parsed (markMessaged [] c restaurantName) else Missing
      | Corrupt \<Rightarrow> Corrupt
      | Parsed messaged \<Rightarrow>
          if writeOk then Parsed (markMessaged messaged c restaurantName) else Parsed messaged)"

text \<open>
  \<^verbatim>\<open>saveMessagedRestaurant\<close> of send-dm.step.ts (lines 595-627): the same \<^verbatim>\<open>try\<close> block
  (\<open>writeOk\<close> also covers \<^verbatim>\<open>fs.mkdirSync\<close>), but the \<^verbatim>\<open>catch\<close> block throws
  \<open>ReferenceError\<close>; the file is then as it was.
\<close>

definition saveMessagedRestaurant_step ::
  "messagedFile \<Rightarrow> clock \<Rightarrow> bool \<Rightarrow> string \<Rightarrow> error + messagedFile" where
  "saveMessagedRestaurant_step f c writeOk restaurantName =
     (case f of
        Missing \<Rightarrow>
          if writeOk then Inr (Parsed (markMessaged [] c restaurantName)) else Inl ReferenceError
      | Corrupt \<Rightarrow> Inl ReferenceError
      | Parsed messaged \<Rightarrow>
          if writeOk then Inr (Parsed (markMessaged messaged c restaurantName))
          else Inl ReferenceError)"

section \<open>Leads (output/restaurants.json)\<close>

text \<open>
  Of a restaurant the messaging code reads \<^verbatim>\<open>name\<close> and \<^verbatim>\<open>socialMedia?.instagram\<close>;
  \<open>instagram = None\<close> stands for a missing \<^verbatim>\<open>socialMedia\<close> or a missing \<^verbatim>\<open>instagram\<close>.
\<close>

record Restaurant =
  name :: string
  instagram :: "string option"

text \<open>
  Truthiness of \<^verbatim>\<open>restaurant.socialMedia?.instagram\<close>: \<^verbatim>\<open>undefined\<close> and the empty string
  are falsy.
\<close>

definition hasInstagram :: "Restaurant \<Rightarrow> bool" where
  "hasInstagram restaurant =
     (case instagram restaurant of None \<Rightarrow> False | Some url \<Rightarrow> url \<noteq> [])"

definition instagramUrl :: "Restaurant \<Rightarrow> string" where
  "instagramUrl restaurant = (case instagram restaurant of None \<Rightarrow> [] | Some url \<Rightarrow> url)"

text \<open>The character class \<^verbatim>\<open>[A-Za-z0-9_\.]\<close>.\<close>

definition isHandleChar :: "char \<Rightarrow> bool" where
  "isHandleChar ch =
     (ch \<in> set ''ABCDEFGHIJKLMNOPQRSTUVWXYZabcdefghijklmnopqrstuvwxyz0123456789_.'')"

text \<open>\<open>.\<close> of a regular expression matches everything but a line terminator.\<close>

definition isLineTerminator :: "char \<Rightarrow> bool" where
  "isLineTerminator ch = (ch = CHR 0x0A \<or> ch = CHR 0x0D)"

fun stripPrefix :: "string \<Rightarrow> string \<Rightarrow> string option" where
  "stripPrefix [] s = Some s"
| "stripPrefix (p # ps) [] = None"
| "stripPrefix (p # ps) (c # cs) = (if p = c then stripPrefix ps cs else None)"

text \<open>
  \<^verbatim>\<open>/instagram\.com\/([A-Za-z0-9_\.]+)/\<close> tried at the start of \<open>s\<close>: the group is the
  longest run of handle characters, which must not be empty.
\<close>

definition handleAt :: "string \<Rightarrow> (string \<times> string) option" where
  "handleAt s =
     (case stripPrefix ''instagram.com/'' s of
        None \<Rightarrow> None
      | Some rest \<Rightarrow>
          (let handle = takeWhile isHandleChar rest
           in if handle = [] then None else Some (handle, dropWhile isHandleChar rest)))"

text \<open>
  \<^verbatim>\<open>extractInstagramUsername\<close> of send-dm.step.ts (lines 553-557): the leftmost match of
  \<^verbatim>\<open>/instagram\.com\/([A-Za-z0-9_\.]+)/\<close>.
\<close>

fun extractInstagramUsername_step :: "string \<Rightarrow> string option" where
  "extractInstagramUsername_step [] = None"
| "extractInstagramUsername_step (c # cs) =
     (case handleAt (c # cs) of
        Some (handle, rest) \<Rightarrow> Some handle
      | None \<Rightarrow> extractInstagramUsername_step cs)"

text \<open>
  The three patterns of \<^verbatim>\<open>extractInstagramUsername\<close> of send-dm.ts (lines 106-127), each
  tried at the start of \<open>s\<close>. After the greedy group, \<^verbatim>\<open>\/?$\<close> needs the rest to be empty or
  one slash; \<^verbatim>\<open>\/\?hl=.+$\<close> needs the rest to be \<^verbatim>\<open>/?hl=\<close> and at least one more character,
  none a line terminator; \<^verbatim>\<open>explore\/locations\/(.+)\/$\<close> needs a non-empty group without
  line terminators and a final slash.
\<close>

definition regularAt :: "string \<Rightarrow> string option" where
  "regularAt s =
     (case handleAt s of
        None \<Rightarrow> None
      | Some (handle, rest) \<Rightarrow> if rest = [] \<or> rest = ''/'' then Some handle else None)"

definition languageAt :: "string \<Rightarrow> string option" where
  "languageAt s =
     (case handleAt s of
        None \<Rightarrow> None
      | Some (handle, rest) \<Rightarrow>
          (case stripPrefix ''/?hl='' rest of
             None \<Rightarrow> None
           | Some lang \<Rightarrow>
               if lang \<noteq> [] \<and> \<not> list_ex isLineTerminator lang then Some handle else None))"

definition locationAt :: "string \<Rightarrow> string option" where
  "locationAt s =
     (case stripPrefix ''instagram.com/explore/locations/'' s of
        None \<Rightarrow> None
      | Some rest \<Rightarrow>
          if rest \<noteq> [] \<and> last rest = CHR ''/'' \<and> butlast rest \<noteq> []
             \<and> \<not> list_ex isLineTerminator (butlast rest)
          then Some (butlast rest) else None)"

text \<open>\<^verbatim>\<open>url.match(pattern)\<close>: the leftmost position at which the pattern matches.\<close>

fun leftmost :: "(string \<Rightarrow> string option) \<Rightarrow> string \<Rightarrow> string option" where
  "leftmost pat [] = pat []"
| "leftmost pat (c # cs) =
     (case pat (c # cs) of Some handle \<Rightarrow> Some handle | None \<Rightarrow> leftmost pat cs)"

text \<open>\<^verbatim>\<open>url.replace(/\/+$/, '')\<close>\<close>

definition stripTrailingSlashes :: "string \<Rightarrow> string" where
  "stripTrailingSlashes url = rev (dropWhile (\<lambda>ch. ch = CHR ''/'') (rev url))"

text \<open>
  \<^verbatim>\<open>extractInstagramUsername\<close> of send-dm.ts: the first pattern, in order, that matches
  with a non-empty group.
\<close>

fun firstPattern :: "(string \<Rightarrow> string option) list \<Rightarrow> string \<Rightarrow> string option" where
  "firstPattern [] url = None"
| "firstPattern (pat # pats) url =
     (case leftmost pat url of
        Some handle \<Rightarrow> if handle \<noteq> [] then Some handle else firstPattern pats url
      | None \<Rightarrow> firstPattern pats url)"

definition extractInstagramUsername_cli :: "string \<Rightarrow> string option" where
  "extractInstagramUsername_cli url =
     (if url = [] then None
      else firstPattern [regularAt, languageAt, locationAt] (stripTrailingSlashes url))"

text \<open>
  \<^verbatim>\<open>generateMessage\<close>: \<^verbatim>\<open>name.split(' ')[0]\<close> is the name up to its first space; send-dm.ts
  draws from a list of one variant, so both files compose the same text.
\<close>

definition generateMessage :: "string \<Rightarrow> string" where
  "generateMessage restaurantName =
     ''Hello from Zoe! I help restaurants like '' @ takeWhile (\<lambda>ch. ch \<noteq> CHR '' '') restaurantName
       @ '' handle up to 100 calls a day, 30 at once, and send orders straight to your CRM, POS, or kitchen printer. Would you like to see a 60-second demo?''"

section \<open>The campaign run\<close>

text \<open>
  What a run cannot decide itself is read from an environment. Calls of \<^verbatim>\<open>sendMessage\<close> are
  numbered from 0 in the order in which the run makes them: \<open>delivers env n\<close> says whether
  the page interaction of call \<open>n\<close> gets the message out (\<^verbatim>\<open>sendMessage\<close> catches every
  failure of it and returns \<^verbatim>\<open>false\<close>); \<open>clockAt env n\<close> and \<open>writeOk env n\<close> are the wall
  clock and the fate of the file write when the send history is saved after \<open>n\<close> calls.
  \<open>launch env\<close> is how \<^verbatim>\<open>init\<close> ends: \<^verbatim>\<open>chromium.launch\<close> may throw (no browser exists then),
  or a later step of \<^verbatim>\<open>init\<close> may throw with the browser already running.
\<close>

datatype launchOutcome = Launched | LaunchFailed | ContextFailed

record env =
  startClock :: clock
  launch :: launchOutcome
  loginOk :: bool
  delivers :: "nat \<Rightarrow> bool"
  clockAt :: "nat \<Rightarrow> clock"
  writeOk :: "nat \<Rightarrow> bool"

text \<open>
  \<open>Attempt\<close> records a call of \<^verbatim>\<open>sendMessage\<close> by the run: the restaurant name, the
  Instagram username, the message text and the value returned.
\<close>

datatype event = Attempt string string string bool

text \<open>
  The state a run changes: the history file, whether a browser is running
  (\<^verbatim>\<open>this.browser\<close> of \<^verbatim>\<open>InstagramAutomation\<close> set and not closed), the number of calls of
  \<^verbatim>\<open>sendMessage\<close> made so far, the field \<^verbatim>\<open>dailyMessageCount\<close> of the \<^verbatim>\<open>InstagramAutomation\<close>
  of send-dm.ts (the class of send-dm.step.ts has no such field and leaves it alone), and
  the calls made.
\<close>

record world =
  historyFile :: messagedFile
  browserOpen :: bool
  sendCalls :: nat
  dailyMessageCount :: nat
  attempts :: "event list"

text \<open>
  \<^verbatim>\<open>init\<close> (both files): on \<open>ContextFailed\<close> the exception leaves \<^verbatim>\<open>init\<close> after
  \<^verbatim>\<open>this.browser\<close> was assigned.
\<close>

definition init :: "env \<Rightarrow> world \<Rightarrow> error + world" where
  "init e w =
     (case launch e of
        Launched \<Rightarrow> Inr (w\<lparr>browserOpen := True\<rparr>)
      | LaunchFailed \<Rightarrow> Inl InitError
      | ContextFailed \<Rightarrow> Inl InitError)"

text \<open>The state in which a throwing \<^verbatim>\<open>init\<close> leaves the world.\<close>

definition afterInit :: "env \<Rightarrow> world \<Rightarrow> world" where
  "afterInit e w =
     (case launch e of
        Launched \<Rightarrow> w\<lparr>browserOpen := True\<rparr>
      | LaunchFailed \<Rightarrow> w
      | ContextFailed \<Rightarrow> w\<lparr>browserOpen := True\<rparr>)"

text \<open>\<^verbatim>\<open>close\<close> (both files): \<^verbatim>\<open>if (this.browser) await this.browser.close()\<close>\<close>

definition close :: "world \<Rightarrow> world" where
  "close w = w\<lparr>browserOpen := False\<rparr>"

text \<open>
  \<^verbatim>\<open>sendMessage\<close> of send-dm.ts (lines 274-527), called after \<^verbatim>\<open>init\<close> has set \<^verbatim>\<open>this.page\<close>:
  it returns \<^verbatim>\<open>false\<close> without touching the page once \<^verbatim>\<open>dailyMessageCount\<close> has reached
  \<^verbatim>\<open>MAX_DAILY_MESSAGES = 100\<close>, and counts a message that went out.
\<close>

definition sendMessage_cli ::
  "env \<Rightarrow> string \<Rightarrow> string \<Rightarrow> string \<Rightarrow> world \<Rightarrow> bool \<times> world" where
  "sendMessage_cli e restaurantName username message w =
     (let success = (if dailyMessageCount w \<ge> 100 then False else delivers e (sendCalls w))
      in (success,
          w\<lparr>sendCalls := sendCalls w + 1,
            dailyMessageCount := (if success then dailyMessageCount w + 1 else dailyMessageCount w),
            attempts := attempts w @ [Attempt restaurantName username message success]\<rparr>))"

text \<open>\<^verbatim>\<open>sendMessage\<close> of send-dm.step.ts (lines 291-539).\<close>

definition sendMessage_step ::
  "env \<Rightarrow> string \<Rightarrow> string \<Rightarrow> string \<Rightarrow> world \<Rightarrow> bool \<times> world" where
  "sendMessage_step e restaurantName username message w =
     (let success = delivers e (sendCalls w)
      in (success,
          w\<lparr>sendCalls := sendCalls w + 1,
            attempts := attempts w @ [Attempt restaurantName username message success]\<rparr>))"

subsection \<open>send-dm.ts: the main function\<close>

text \<open>
  Lines 713-725: \<^verbatim>\<open>while (!success && retryCount < 2) { success = await
  instagram.sendMessage(username, message); retryCount++ }\<close>
\<close>

function retryLoop ::
  "env \<Rightarrow> string \<Rightarrow> string \<Rightarrow> string \<Rightarrow> bool \<times> nat \<Rightarrow> world \<Rightarrow> (bool \<times> nat) \<times> world" where
  "retryLoop e restaurantName username message (success, retryCount) w =
     (if \<not> success \<and> retryCount < 2
      then (case sendMessage_cli e restaurantName username message w of
              (success', w') \<Rightarrow>
                retryLoop e restaurantName username message (success', retryCount + 1) w')
      else ((success, retryCount), w))"
  by pat_completeness auto
termination
  by (relation "measure (\<lambda>(e, restaurantName, username, message, (success, retryCount), w).
        2 - retryCount)") auto

declare retryLoop.simps [simp del]

text \<open>
  Lines 672-739, the loop over \<^verbatim>\<open>Object.entries(restaurants)\<close> of one location; the pair
  carried is \<^verbatim>\<open>(locationDMCount, currentHourlyCount)\<close>. The delays change nothing that is
  modelled.
\<close>

fun restaurantLoop ::
  "env \<Rightarrow> nat \<Rightarrow> (string \<times> Restaurant) list \<Rightarrow> nat \<times> nat \<Rightarrow> world \<Rightarrow> (nat \<times> nat) \<times> world" where
  "restaurantLoop e batchLimit [] (locationDMCount, currentHourlyCount) w =
     ((locationDMCount, currentHourlyCount), w)"
| "restaurantLoop e batchLimit ((restaurantName, restaurant) # rest)
       (locationDMCount, currentHourlyCount) w =
     (if currentHourlyCount \<ge> 25 then ((locationDMCount, currentHourlyCount), w)
      else if locationDMCount \<ge> batchLimit then ((locationDMCount, currentHourlyCount), w)
      else if \<not> hasInstagram restaurant
        then restaurantLoop e batchLimit rest (locationDMCount, currentHourlyCount) w
      else if isRestaurantMessaged_cli (historyFile w) restaurantName
        then restaurantLoop e batchLimit rest (locationDMCount, currentHourlyCount) w
      else (case extractInstagramUsername_cli (instagramUrl restaurant) of
              None \<Rightarrow> restaurantLoop e batchLimit rest (locationDMCount, currentHourlyCount) w
            | Some username \<Rightarrow>
                (case retryLoop e restaurantName username (generateMessage (name restaurant))
                        (False, 0) w of
                   ((success, retryCount), w') \<Rightarrow>
                     if success
                     then restaurantLoop e batchLimit rest
                            (locationDMCount + 1, currentHourlyCount + 1)
                            (w'\<lparr>historyFile := saveMessagedRestaurant_cli (historyFile w')
                                   (clockAt e (sendCalls w')) (writeOk e (sendCalls w'))
                                   restaurantName\<rparr>)
                     else restaurantLoop e batchLimit rest
                            (locationDMCount, currentHourlyCount) w')))"

text \<open>
  Lines 664-742, the loop over \<^verbatim>\<open>Object.keys(restaurantData)\<close>: each location starts with
  \<^verbatim>\<open>let locationDMCount = 0; let currentHourlyCount = hourly\<close>.
\<close>

fun locationLoop ::
  "env \<Rightarrow> nat \<Rightarrow> nat \<Rightarrow> (string \<times> (string \<times> Restaurant) list) list \<Rightarrow> world \<Rightarrow> world" where
  "locationLoop e hourly0 batchLimit [] w = w"
| "locationLoop e hourly0 batchLimit ((location, restaurants) # rest) w =
     locationLoop e hourly0 batchLimit rest
       (snd (restaurantLoop e batchLimit restaurants (0, hourly0) w))"

text \<open>
  How the script ends: it runs to its last line, it leaves through \<^verbatim>\<open>process.exit(0)\<close> at
  one of the two limit checks, or an exception leaves the main function (nothing catches
  it there).
\<close>

datatype ending = Completed | HourlyLimitExit | DailyLimitExit | Uncaught error

text \<open>
  The main function of send-dm.ts (lines 631-748), from the loaded \<^verbatim>\<open>restaurantData\<close> on.

  The first line of the function that reads the history, \<^verbatim>\<open>getMessageCounts()\<close> at line
  640, runs before the first \<^verbatim>\<open>await\<close>, while the module is still being evaluated; the
  \<^verbatim>\<open>const messagedRestaurantsPath\<close> it reads is declared at line 750, below the call of the
  main function, and is uninitialised then. The access throws inside the \<^verbatim>\<open>try\<close> block of
  \<^verbatim>\<open>getMessageCounts\<close>, whose \<^verbatim>\<open>catch\<close> block returns \<^verbatim>\<open>{ hourly: 0, daily: 0 }\<close>. The
  parameter \<open>pathInitialised\<close> of \<open>startCounts\<close> says whether the constant is initialised
  at that call; \<open>main\<close> passes \<open>False\<close>. Every later read and write of the file happens
  after an \<^verbatim>\<open>await\<close>, with the constant initialised.
\<close>

definition startCounts :: "bool \<Rightarrow> messagedFile \<Rightarrow> clock \<Rightarrow> counts" where
  "startCounts pathInitialised f c =
     (if pathInitialised then getMessageCounts_cli f c else \<lparr>hourly = 0, daily = 0\<rparr>)"

definition mainFrom ::
  "bool \<Rightarrow> env \<Rightarrow> (string \<times> (string \<times> Restaurant) list) list \<Rightarrow> world \<Rightarrow> ending \<times> world" where
  "mainFrom pathInitialised e restaurantData w =
     (let c = startCounts pathInitialised (historyFile w) (startClock e)
      in if hourly c \<ge> 25 then (HourlyLimitExit, w)
         else if daily c \<ge> 100 then (DailyLimitExit, w)
         else
           (let hourlyRemaining = 25 - hourly c;
                dailyRemaining = 100 - daily c;
                batchLimit = min hourlyRemaining dailyRemaining
            in case init e w of
                 Inl err \<Rightarrow> (Uncaught err, afterInit e w)
               | Inr w1 \<Rightarrow>
                   if \<not> loginOk e then (Uncaught LoginError, w1)
                   else (Completed, close (locationLoop e (hourly c) batchLimit restaurantData w1))))"

definition main ::
  "env \<Rightarrow> (string \<times> (string \<times> Restaurant) list) list \<Rightarrow> world \<Rightarrow> ending \<times> world" where
  "main e restaurantData w = mainFrom False e restaurantData w"

subsection \<open>send-dm.step.ts: the handler\<close>

text \<open>
  Lines 718-729: the loop that fills \<^verbatim>\<open>restaurantsToMessage\<close> with
  \<^verbatim>\<open>{ name, instagramUrl }\<close>. \<^verbatim>\<open>isRestaurantMessaged(name)\<close> is called for every entry.
\<close>

fun restaurantsToMessage ::
  "messagedFile \<Rightarrow> (string \<times> Restaurant) list \<Rightarrow> error + (string \<times> string) list" where
  "restaurantsToMessage f [] = Inr []"
| "restaurantsToMessage f ((restaurantName, restaurant) # rest) =
     (case isRestaurantMessaged_step f restaurantName of
        Inl err \<Rightarrow> Inl err
      | Inr messaged \<Rightarrow>
          (case restaurantsToMessage f rest of
             Inl err \<Rightarrow> Inl err
           | Inr others \<Rightarrow>
               Inr (if hasInstagram restaurant \<and> \<not> messaged
                    then (restaurantName, instagramUrl restaurant) # others else others)))"

text \<open>
  Lines 798-839, the loop over \<^verbatim>\<open>messagesToSend\<close>; the pair carried is
  \<^verbatim>\<open>(successCount, hourlyCount)\<close>. An exception of \<^verbatim>\<open>saveMessagedRestaurant\<close> is caught by the
  \<^verbatim>\<open>catch (messageError)\<close> of the loop body, before the two counters are incremented.
\<close>

fun sendLoop ::
  "env \<Rightarrow> (string \<times> string) list \<Rightarrow> nat \<times> nat \<Rightarrow> world \<Rightarrow> (nat \<times> nat) \<times> world" where
  "sendLoop e [] (successCount, hourlyCount) w = ((successCount, hourlyCount), w)"
| "sendLoop e ((restaurantName, url) # rest) (successCount, hourlyCount) w =
     (if hourlyCount \<ge> 25 then ((successCount, hourlyCount), w)
      else (case extractInstagramUsername_step url of
              None \<Rightarrow> sendLoop e rest (successCount, hourlyCount) w
            | Some username \<Rightarrow>
                (case sendMessage_step e restaurantName username
                        (generateMessage restaurantName) w of
                   (success, w') \<Rightarrow>
                     if success
                     then (case saveMessagedRestaurant_step (historyFile w') (clockAt e (sendCalls w'))
                                  (writeOk e (sendCalls w')) restaurantName of
                             Inl err \<Rightarrow> sendLoop e rest (successCount, hourlyCount) w'
                           | Inr f' \<Rightarrow>
                               sendLoop e rest (successCount + 1, hourlyCount + 1)
                                 (w'\<lparr>historyFile := f'\<rparr>))
                     else sendLoop e rest (successCount, hourlyCount) w')))"

text \<open>\<^verbatim>\<open>input.location.toLowerCase()\<close>, on the letters A to Z.\<close>

definition toLowerCase :: "string \<Rightarrow> string" where
  "toLowerCase s =
     map (\<lambda>ch. if (65 :: nat) \<le> of_char ch \<and> of_char ch \<le> (90 :: nat)
                then char_of (of_char ch + (32 :: nat)) else ch) s"

text \<open>What the handler emits on the topic \<^verbatim>\<open>dm.status.updated\<close>.\<close>

datatype report =
    Sent nat
  | NothingToMessage
  | HourlyLimitReached
  | DailyLimitReached
  | Failed error

text \<open>
  The \<^verbatim>\<open>try\<close> block of the handler (lines 664-849). For a location key that names an
  inherited property and no own one, \<^verbatim>\<open>allRestaurants[locationKey]\<close> is a function or the
  prototype, whose \<^verbatim>\<open>Object.entries\<close> is empty, as that of \<^verbatim>\<open>{}\<close> for a missing key.
\<close>

definition handlerTry ::
  "env \<Rightarrow> string \<Rightarrow> (string \<times> (string \<times> Restaurant) list) list \<Rightarrow> world \<Rightarrow>
     (error + report) \<times> world" where
  "handlerTry e location allRestaurants w =
     (case getMessageCounts_step (historyFile w) (startClock e) of
        Inl err \<Rightarrow> (Inl err, w)
      | Inr c \<Rightarrow>
          if hourly c \<ge> 25 then (Inr HourlyLimitReached, w)
          else if daily c \<ge> 100 then (Inr DailyLimitReached, w)
          else
            (let hourlyRemaining = 25 - hourly c;
                 dailyRemaining = 100 - daily c;
                 batchLimit = min hourlyRemaining dailyRemaining;
                 locationKey = toLowerCase location;
                 locationRestaurants =
                   (case getProp allRestaurants locationKey of None \<Rightarrow> [] | Some rs \<Rightarrow> rs)
             in case restaurantsToMessage (historyFile w) locationRestaurants of
                  Inl err \<Rightarrow> (Inl err, w)
                | Inr toMessage \<Rightarrow>
                    if length toMessage = 0 then (Inr NothingToMessage, w)
                    else
                      (let messagesToSend = take batchLimit toMessage
                       in case init e w of
                            Inl err \<Rightarrow> (Inl err, afterInit e w)
                          | Inr w1 \<Rightarrow>
                              if \<not> loginOk e then (Inl LoginError, w1)
                              else (case sendLoop e messagesToSend (0, hourly c) w1 of
                                      ((successCount, hourlyCount), w2) \<Rightarrow>
                                        (Inr (Sent successCount), w2)))))"

text \<open>
  The handler (lines 651-890): the \<^verbatim>\<open>catch\<close> block emits the error with \<^verbatim>\<open>count: 0\<close>, and the
  \<^verbatim>\<open>finally\<close> block calls \<^verbatim>\<open>instagram.close()\<close>.
\<close>

definition handler ::
  "env \<Rightarrow> string \<Rightarrow> (string \<times> (string \<times> Restaurant) list) list \<Rightarrow> world \<Rightarrow> report \<times> world" where
  "handler e location allRestaurants w =
     (case handlerTry e location allRestaurants w of
        (Inl err, w') \<Rightarrow> (Failed err, close w')
      | (Inr r, w') \<Rightarrow> (r, close w'))"

section \<open>Runs in sequence, and what the history records\<close>

fun attemptedName :: "event \<Rightarrow> string" where
  "attemptedName (Attempt restaurantName username message success) = restaurantName"

text \<open>
  A run of the script or of the event step. Each run starts with a new
  \<^verbatim>\<open>InstagramAutomation\<close> (no browser, \<^verbatim>\<open>dailyMessageCount = 0\<close>) and has its own environment;
  the history file and the record of the calls made carry over.
\<close>

datatype run =
    ScriptRun env "(string \<times> (string \<times> Restaurant) list) list"
  | StepRun env string "(string \<times> (string \<times> Restaurant) list) list"

definition newAutomation :: "world \<Rightarrow> world" where
  "newAutomation w = w\<lparr>browserOpen := False, sendCalls := 0, dailyMessageCount := 0\<rparr>"

fun campaign :: "run list \<Rightarrow> world \<Rightarrow> world" where
  "campaign [] w = w"
| "campaign (ScriptRun e restaurantData # runs) w =
     campaign runs (snd (main e restaurantData (newAutomation w)))"
| "campaign (StepRun e location allRestaurants # runs) w =
     campaign runs (snd (handler e location allRestaurants (newAutomation w)))"

text \<open>
  The lead objects of a run have no repeated property name, as every parsed JSON object.
\<close>

fun distinctLeads :: "run \<Rightarrow> bool" where
  "distinctLeads (ScriptRun e restaurantData) =
     list_all (\<lambda>(location, restaurants). distinct (Object_keys restaurants)) restaurantData"
| "distinctLeads (StepRun e location allRestaurants) =
     list_all (\<lambda>(location, restaurants). distinct (Object_keys restaurants)) allRestaurants"

text \<open>
  \<open>weight g ob\<close> adds \<open>g\<close> over the property values of an object; \<open>recordedIn messaged n\<close>
  is the number of (date, hour) buckets of the history that hold a send to \<open>n\<close>.
\<close>

definition weight :: "('v \<Rightarrow> nat) \<Rightarrow> 'v obj \<Rightarrow> nat" where
  "weight g ob = sum_list (map (\<lambda>(k, v). g v) ob)"

definition holds :: "string \<Rightarrow> hourObj \<Rightarrow> nat" where
  "holds n names = (if getProp names n = Some True then 1 else 0)"

definition recordedIn :: "messagedData \<Rightarrow> string \<Rightarrow> nat" where
  "recordedIn messaged n = weight (weight (holds n)) messaged"

definition recordings :: "messagedFile \<Rightarrow> string \<Rightarrow> nat" where
  "recordings f n =
     (case f of Missing \<Rightarrow> 0 | Corrupt \<Rightarrow> 0 | Parsed messaged \<Rightarrow> recordedIn messaged n)"

text \<open>
  \<open>quiet R w w'\<close>: in the state \<open>w'\<close> \<^verbatim>\<open>isRestaurantMessaged(R)\<close> is still true, no bucket
  that held \<open>R\<close> in \<open>w\<close> has lost it, and the calls of \<^verbatim>\<open>sendMessage\<close> made between \<open>w\<close>
  and \<open>w'\<close> leave \<open>R\<close> out.
\<close>

definition quiet :: "string \<Rightarrow> world \<Rightarrow> world \<Rightarrow> bool" where
  "quiet R w w' \<longleftrightarrow>
     isRestaurantMessaged_cli (historyFile w') R
     \<and> recordings (historyFile w) R \<le> recordings (historyFile w') R
     \<and> (\<exists>new. attempts w' = attempts w @ new \<and> (\<forall>ev \<in> set new. attemptedName ev \<noteq> R))"

text \<open>No restaurant name is held by more than one bucket of the history.\<close>

definition atMostOnce :: "messagedFile \<Rightarrow> bool" where
  "atMostOnce f \<longleftrightarrow> (\<forall>n. recordings f n \<le> 1)"

text \<open>
  The test both files apply to a lead before messaging it: a truthy Instagram link, and
  \<^verbatim>\<open>isRestaurantMessaged\<close> false.
\<close>

definition eligible :: "messagedFile \<Rightarrow> string \<times> Restaurant \<Rightarrow> bool" where
  "eligible f = (\<lambda>(n, r). hasInstagram r \<and> \<not> isRestaurantMessaged_cli f n)"

text \<open>
  The leads for which the loop of the script calls \<^verbatim>\<open>sendMessage\<close> when it reaches them with
  capacity left: those that pass the test above and whose link yields a username.
\<close>

definition messageable :: "messagedFile \<Rightarrow> string \<times> Restaurant \<Rightarrow> bool" where
  "messageable f =
     (\<lambda>(n, r). eligible f (n, r) \<and> extractInstagramUsername_cli (instagramUrl r) \<noteq> None)"

text \<open>
  The hour keys of every day of the history are distinct, as in every parsed JSON object;
  \<open>within f c k f'\<close>: read at the clock \<open>c\<close>, the hourly and the daily count of \<open>f'\<close> exceed
  those of \<open>f\<close> by at most \<open>k\<close>.
\<close>

definition distinctHours :: "messagedFile \<Rightarrow> bool" where
  "distinctHours f =
     (case f of Parsed messaged \<Rightarrow> list_all (\<lambda>(day, hours). distinct (Object_keys hours)) messaged
              | _ \<Rightarrow> True)"

definition within :: "messagedFile \<Rightarrow> clock \<Rightarrow> nat \<Rightarrow> messagedFile \<Rightarrow> bool" where
  "within f c k f' \<longleftrightarrow>
     hourly (getMessageCounts_cli f' c) \<le> hourly (getMessageCounts_cli f c) + k
     \<and> daily (getMessageCounts_cli f' c) \<le> daily (getMessageCounts_cli f c) + k
     \<and> distinctHours f'"

section \<open>Sample data\<close>

text \<open>\<open>sampleNames stem n\<close>: an hour bucket with \<open>n\<close> different restaurant names.\<close>

definition sampleNames :: "string \<Rightarrow> nat \<Rightarrow> hourObj" where
  "sampleNames stem n = map (\<lambda>i. (stem @ showNat i, True)) [0..<n]"

definition may1 :: "nat \<Rightarrow> clock" where
  "may1 h = \<lparr>today = ''2024-05-01'', currentHour = h\<rparr>"

text \<open>A history with 2 sends in hour 13 and 25 sends in hour 14 of one day.\<close>

definition fullHour14 :: messagedData where
  "fullHour14 =
     [(''2024-05-01'', [(''13h'', sampleNames ''Cafe '' 2), (''14h'', sampleNames ''Diner '' 25)])]"

text \<open>An environment in which the browser starts and every delivery and write succeeds.\<close>

definition calm :: env where
  "calm = \<lparr>startClock = may1 15, launch = Launched, loginOk = True,
            delivers = (\<lambda>n. True), clockAt = (\<lambda>n. may1 15), writeOk = (\<lambda>n. True)\<rparr>"

definition lead :: "string \<Rightarrow> string \<Rightarrow> string \<times> Restaurant" where
  "lead restaurantName url = (restaurantName, \<lparr>name = restaurantName, instagram = Some url\<rparr>)"

definition noHandle :: "string \<Rightarrow> string \<times> Restaurant" where
  "noHandle restaurantName = (restaurantName, \<lparr>name = restaurantName, instagram = None\<rparr>)"

text \<open>Leads of two locations; each location has a restaurant named Diner 0.\<close>

definition twoTowns :: "(string \<times> (string \<times> Restaurant) list) list" where
  "twoTowns =
     [(''austin'', [lead ''Diner 0'' ''https://www.instagram.com/diner0/'',
                    lead ''Taco Bar'' ''https://www.instagram.com/tacobar/'']),
      (''dallas'', [lead ''Diner 0'' ''https://www.instagram.com/diner0.dallas/''])]"

definition start :: "messagedFile \<Rightarrow> world" where
  "start f = \<lparr>historyFile = f, browserOpen = False, sendCalls = 0, dailyMessageCount = 0,
               attempts = []\<rparr>"

text \<open>The history after one recorded send, to Diner 0 at hour 14.\<close>

definition afterDiner0 :: messagedFile where
  "afterDiner0 = saveMessagedRestaurant_cli Missing (may1 14) True ''Diner 0''"

text \<open>Leads A, B, C in this order, and a history that holds B.\<close>

definition leadsABC :: "(string \<times> Restaurant) list" where
  "leadsABC = [lead ''A'' ''https://www.instagram.com/a/'',
               lead ''B'' ''https://www.instagram.com/b/'',
               lead ''C'' ''https://www.instagram.com/c/'']"

definition afterB :: messagedFile where
  "afterB = saveMessagedRestaurant_cli Missing (may1 14) True ''B''"

text \<open>
  Environments in which every delivery fails, every write of the history fails, only the
  first delivery fails, and the login throws.
\<close>

definition failing :: env where
  "failing = calm\<lparr>delivers := (\<lambda>k. False)\<rparr>"

definition readOnly :: env where
  "readOnly = calm\<lparr>writeOk := (\<lambda>k. False)\<rparr>"

definition firstFails :: env where
  "firstFails = calm\<lparr>delivers := (\<lambda>k. k \<noteq> 0)\<rparr>"

definition noLogin :: env where
  "noLogin = calm\<lparr>loginOk := False\<rparr>"

text \<open>Leads X and Y of one location; leads of two locations; 24 sends in hour 15.\<close>

definition urlX :: string where
  "urlX = ''https://www.instagram.com/x/''"

definition restaurantX :: Restaurant where
  "restaurantX = \<lparr>name = ''X'', instagram = Some urlX\<rparr>"

definition austinXY :: "(string \<times> (string \<times> Restaurant) list) list" where
  "austinXY = [(''austin'', [lead ''X'' ''https://www.instagram.com/x/'',
                             lead ''Y'' ''https://www.instagram.com/y/''])]"

definition freshTowns :: "(string \<times> (string \<times> Restaurant) list) list" where
  "freshTowns =
     [(''austin'', [lead ''Taco Bar'' ''https://www.instagram.com/tacobar/'']),
      (''dallas'', [lead ''Pho House'' ''https://www.instagram.com/phohouse/''])]"

definition busyHour :: messagedData where
  "busyHour = [(''2024-05-01'', [(''15h'', sampleNames ''Diner '' 24)])]"

text \<open>
  A lead whose Instagram link is the empty string; the members of a lead object in the
  order of the file, one of them named by an array index; members of which one is in the
  history (B), one has an empty link and two are named by array indices.
\<close>

definition emptyLink :: "string \<Rightarrow> string \<times> Restaurant" where
  "emptyLink restaurantName = (restaurantName, \<lparr>name = restaurantName, instagram = Some []\<rparr>)"

definition leadsZed1618 :: "(string \<times> Restaurant) list" where
  "leadsZed1618 = [lead ''Zed'' ''https://www.instagram.com/zed/'',
                   lead ''1618'' ''https://www.instagram.com/bar1618/'']"

definition leadsMixed :: "(string \<times> Restaurant) list" where
  "leadsMixed = [lead ''Zed'' ''https://www.instagram.com/zed/'',
                 lead ''B'' ''https://www.instagram.com/b/'',
                 lead ''1618'' ''https://www.instagram.com/bar1618/'',
                 emptyLink ''E'',
                 lead ''7'' ''https://www.instagram.com/seven/'']"


text \<open>A history with 25 sends in each of the hours 11 to 14 of one day.\<close>

definition fullDay :: messagedData where
  "fullDay =
     [(''2024-05-01'', [(''11h'', sampleNames ''Bar '' 25), (''12h'', sampleNames ''Cafe '' 25),
                        (''13h'', sampleNames ''Deli '' 25), (''14h'', sampleNames ''Diner '' 25)])]"

section \<open>Properties of the history store\<close>

lemma getProp_setProp:
  "getProp (setProp ob k v) k' = (if k' = k then Some v else getProp ob k')"
  by (induction ob) (auto simp: getProp_def)

lemma list_ex_setProp_new:
  "P v \<Longrightarrow> list_ex (\<lambda>(k', v'). P v') (setProp ob k v)"
  by (induction ob) auto

lemma list_ex_setProp_keep:
  assumes "list_ex (\<lambda>(k', v'). P v') ob"
      and "\<And>v0. getProp ob k = Some v0 \<Longrightarrow> P v0 \<Longrightarrow> P v"
  shows "list_ex (\<lambda>(k', v'). P v') (setProp ob k v)"
  using assms
proof (induction ob)
  case Nil
  then show ?case by simp
next
  case (Cons p ps)
  obtain k' v' where p: "p = (k', v')" by (cases p)
  show ?case
  proof (cases "k' = k")
    case True
    with Cons.prems p show ?thesis by (auto simp: getProp_def)
  next
    case False
    with Cons p show ?thesis by (auto simp: getProp_def)
  qed
qed

lemma getProp_in_set: "getProp ob k = Some v \<Longrightarrow> (k, v) \<in> set ob"
  by (simp add: getProp_def map_of_SomeD)

lemma fst_set_setProp: "fst ` set (setProp ob k v) = insert k (fst ` set ob)"
proof (induction ob)
  case Nil
  show ?case by simp
next
  case (Cons p ob)
  obtain k' v' where p: "p = (k', v')" by (cases p)
  show ?case
  proof (cases "k' = k")
    case True
    with p show ?thesis by simp
  next
    case False
    note ne = this
    show ?thesis
    proof (cases "getProp ob k = None \<and> comesBefore k k'")
      case True
      with ne p show ?thesis by simp
    next
      case False
      with ne p have "setProp (p # ob) k v = (k', v') # setProp ob k v" by auto
      with Cons.IH p show ?thesis by (simp add: insert_commute)
    qed
  qed
qed

lemma keys_setProp:
  "set (Object_keys (setProp ob k v)) = insert k (set (Object_keys ob))"
  by (simp add: Object_keys_def fst_set_setProp)

lemma length_setProp: "length (setProp ob k v) \<le> length ob + 1"
  by (induction ob) auto

lemma length_assignTrue: "length (assignTrue ob k) \<le> length ob + 1"
  using length_setProp[of ob k True] by (simp add: assignTrue_def)

lemma set_setProp: "set (setProp ob k v) \<subseteq> insert (k, v) (set ob)"
  by (induction ob) (auto split: if_splits)

lemma distinct_setProp:
  "distinct (Object_keys ob) \<Longrightarrow> distinct (Object_keys (setProp ob k v))"
proof (induction ob)
  case Nil
  show ?case by (simp add: Object_keys_def)
next
  case (Cons p ob)
  obtain k' v' where p: "p = (k', v')" by (cases p)
  from Cons.prems p have nk: "k' \<notin> set (Object_keys ob)" and d: "distinct (Object_keys ob)"
    by (simp_all add: Object_keys_def)
  show ?case
  proof (cases "k' = k")
    case True
    with p Cons.prems show ?thesis by (simp add: Object_keys_def)
  next
    case False
    note ne = this
    show ?thesis
    proof (cases "getProp ob k = None \<and> comesBefore k k'")
      case True
      then have "k \<notin> set (Object_keys ob)"
        by (simp add: getProp_def Object_keys_def map_of_eq_None_iff)
      with True ne p Cons.prems show ?thesis by (auto simp: Object_keys_def)
    next
      case False
      from nk ne have "k' \<notin> set (Object_keys (setProp ob k v))" by (simp add: keys_setProp)
      moreover from d have "distinct (Object_keys (setProp ob k v))" by (rule Cons.IH)
      ultimately have "distinct (Object_keys ((k', v') # setProp ob k v))"
        by (simp add: Object_keys_def)
      with False ne p show ?thesis by auto
    qed
  qed
qed

lemma truthyProp_assignTrue_same: "truthyProp (assignTrue names n) n"
  by (cases "n = ''__proto__'' \<and> getProp names n = None")
     (auto simp: truthyProp_def assignTrue_def getProp_setProp prototypeNames_def)

lemma getProp_assignTrue_other: "r \<noteq> n \<Longrightarrow> getProp (assignTrue names n) r = getProp names r"
  by (simp add: assignTrue_def getProp_setProp)

lemma truthyProp_assignTrue_other:
  "r \<noteq> n \<Longrightarrow> truthyProp (assignTrue names n) r = truthyProp names r"
  by (simp add: truthyProp_def getProp_assignTrue_other)

lemma truthyProp_assignTrue_keep: "truthyProp names r \<Longrightarrow> truthyProp (assignTrue names n) r"
  by (cases "r = n") (simp_all add: truthyProp_assignTrue_same truthyProp_assignTrue_other)

lemma messagedIn_markMessaged_same: "messagedIn (markMessaged m c n) n"
  unfolding messagedIn_def markMessaged_def Let_def
  by (intro list_ex_setProp_new) (rule truthyProp_assignTrue_same)

lemma messagedIn_markMessaged_mono:
  assumes "messagedIn m r"
  shows "messagedIn (markMessaged m c n) r"
  unfolding messagedIn_def markMessaged_def Let_def
proof (rule list_ex_setProp_keep)
  show "list_ex (\<lambda>(day, hours). list_ex (\<lambda>(hour, names). truthyProp names r) hours) m"
    using assms by (simp add: messagedIn_def)
next
  fix d0
  assume g: "getProp m (today c) = Some d0"
    and ex: "list_ex (\<lambda>(hour, names). truthyProp names r) d0"
  show "list_ex (\<lambda>(hour, names). truthyProp names r)
          (setProp (case getProp m (today c) of None \<Rightarrow> [] | Some d \<Rightarrow> d) (currentHourKey c)
            (assignTrue (case getProp (case getProp m (today c) of None \<Rightarrow> [] | Some d \<Rightarrow> d)
                        (currentHourKey c) of None \<Rightarrow> [] | Some ns \<Rightarrow> ns) n))"
    unfolding g option.case
  proof (rule list_ex_setProp_keep[OF ex])
    fix ns0
    assume "getProp d0 (currentHourKey c) = Some ns0" and "truthyProp ns0 r"
    then show "truthyProp (assignTrue (case getProp d0 (currentHourKey c) of
                                   None \<Rightarrow> [] | Some ns \<Rightarrow> ns) n) r"
      by (simp add: truthyProp_assignTrue_keep)
  qed
qed

lemma countHours_daily:
  "snd (countHours day key (h, d)) = d + sum_list (map (\<lambda>(hour, names). length names) day)"
  by (induction day key "(h, d)" arbitrary: h d rule: countHours.induct)
     (simp_all add: Object_keys_def Let_def)

lemma countHours_absent:
  "key \<notin> fst ` set day \<Longrightarrow> fst (countHours day key (h, d)) = h"
  by (induction day key "(h, d)" arbitrary: h d rule: countHours.induct)
     (auto simp: Object_keys_def Let_def)

lemma countHours_le:
  "h \<le> d \<Longrightarrow> fst (countHours day key (h, d)) \<le> snd (countHours day key (h, d))"
  by (induction day key "(h, d)" arbitrary: h d rule: countHours.induct)
     (simp_all add: Let_def)

lemma countsOf_hourly_le_daily: "hourly (countsOf m c) \<le> daily (countsOf m c)"
proof (cases "getProp m (today c)")
  case None
  then show ?thesis by (simp add: countsOf_def)
next
  case (Some day)
  obtain h d where hd: "countHours day (currentHourKey c) (0, 0) = (h, d)"
    by (cases "countHours day (currentHourKey c) (0, 0)")
  with countHours_le[of 0 0 day "currentHourKey c"] have "h \<le> d" by simp
  with Some hd show ?thesis by (simp add: countsOf_def)
qed

lemma countsOf_daily_any_hour:
  "daily (countsOf m (c\<lparr>currentHour := h\<rparr>)) = daily (countsOf m c)"
  using countHours_daily
  by (auto simp: countsOf_def split: option.splits prod.splits) (metis snd_conv)

lemma countsOf_hourly_absent:
  assumes "getProp m (today c) = Some day" and "currentHourKey c \<notin> set (Object_keys day)"
  shows "hourly (countsOf m c) = 0"
  using assms countHours_absent[of "currentHourKey c" day 0 0]
  by (auto simp: countsOf_def Object_keys_def split: prod.splits)

section \<open>Bucket rollover\<close>

text \<open>
  \<^verbatim>\<open>getMessageCounts\<close>, once it has parsed the file, counts against the buckets of the
  current wall clock. Take a stored history in which the hour bucket \<^verbatim>\<open>"14h"\<close> of the day
  holds 25 sends (the hourly count read at hour 14 is 25) and nothing is recorded under
  \<^verbatim>\<open>"15h"\<close> yet. Read at wall-clock hour 15, the hourly count is 0, so that
  \<^verbatim>\<open>hourlyRemaining = 25 - hourly\<close> is 25; the daily count is the one read at hour 14 and
  still includes the 25 sends. The function bodies of send-dm.ts and of send-dm.step.ts
  compute the same counts.
\<close>

lemma bucket_rollover:
  assumes "hourly (getMessageCounts_cli (Parsed messaged) (c\<lparr>currentHour := 14\<rparr>)) = 25"
      and "getProp messaged (today c) = Some day"
      and "''15h'' \<notin> set (Object_keys day)"
  shows "hourly (getMessageCounts_cli (Parsed messaged) (c\<lparr>currentHour := 15\<rparr>)) = 0
       \<and> 25 - hourly (getMessageCounts_cli (Parsed messaged) (c\<lparr>currentHour := 15\<rparr>)) = 25
       \<and> daily (getMessageCounts_cli (Parsed messaged) (c\<lparr>currentHour := 15\<rparr>))
           = daily (getMessageCounts_cli (Parsed messaged) (c\<lparr>currentHour := 14\<rparr>))
       \<and> 25 \<le> daily (getMessageCounts_cli (Parsed messaged) (c\<lparr>currentHour := 15\<rparr>))
       \<and> getMessageCounts_step (Parsed messaged) (c\<lparr>currentHour := 15\<rparr>)
           = Inr (getMessageCounts_cli (Parsed messaged) (c\<lparr>currentHour := 15\<rparr>))"
proof -
  have k15: "currentHourKey (c\<lparr>currentHour := 15\<rparr>) = ''15h''"
    by (simp add: currentHourKey_def) code_simp
  have h0: "hourly (getMessageCounts_cli (Parsed messaged) (c\<lparr>currentHour := 15\<rparr>)) = 0"
    using countsOf_hourly_absent[of messaged "c\<lparr>currentHour := 15\<rparr>" day] assms(2,3) k15
    by (simp add: getMessageCounts_cli_def)
  have d: "daily (getMessageCounts_cli (Parsed messaged) (c\<lparr>currentHour := 15\<rparr>))
           = daily (getMessageCounts_cli (Parsed messaged) (c\<lparr>currentHour := 14\<rparr>))"
    by (simp add: getMessageCounts_cli_def countsOf_daily_any_hour)
  have d25: "25 \<le> daily (getMessageCounts_cli (Parsed messaged) (c\<lparr>currentHour := 15\<rparr>))"
    using assms(1) countsOf_hourly_le_daily[of messaged "c\<lparr>currentHour := 14\<rparr>"] d
    by (simp add: getMessageCounts_cli_def)
  have s: "getMessageCounts_step (Parsed messaged) (c\<lparr>currentHour := 15\<rparr>)
           = Inr (getMessageCounts_cli (Parsed messaged) (c\<lparr>currentHour := 15\<rparr>))"
    by (simp add: getMessageCounts_cli_def getMessageCounts_step_def)
  from h0 d d25 s show ?thesis by simp
qed

lemma bucket_rollover_fullHour14:
  "hourly (getMessageCounts_cli (Parsed fullHour14) (may1 14)) = 25
   \<and> getProp fullHour14 ''2024-05-01''
       = Some [(''13h'', sampleNames ''Cafe '' 2), (''14h'', sampleNames ''Diner '' 25)]
   \<and> ''15h'' \<notin> set (Object_keys [(''13h'', sampleNames ''Cafe '' 2), (''14h'', sampleNames ''Diner '' 25)])
   \<and> hourly (getMessageCounts_cli (Parsed fullHour14) (may1 15)) = 0
   \<and> daily (getMessageCounts_cli (Parsed fullHour14) (may1 15)) = 27
   \<and> getMessageCounts_step (Parsed fullHour14) (may1 15) = Inr \<lparr>hourly = 0, daily = 27\<rparr>"
proof -
  let ?day = "[(''13h'', sampleNames ''Cafe '' 2), (''14h'', sampleNames ''Diner '' 25)]"
  have c14: "(may1 15)\<lparr>currentHour := 14\<rparr> = may1 14" and c15: "(may1 15)\<lparr>currentHour := 15\<rparr> = may1 15"
    by (simp_all add: may1_def)
  have h1: "hourly (getMessageCounts_cli (Parsed fullHour14) ((may1 15)\<lparr>currentHour := 14\<rparr>)) = 25"
    unfolding c14 by code_simp
  have h2: "getProp fullHour14 (today (may1 15)) = Some ?day"
    by (simp add: fullHour14_def may1_def getProp_def)
  have h3: "''15h'' \<notin> set (Object_keys ?day)"
    by (simp add: Object_keys_def)
  have d14: "daily (getMessageCounts_cli (Parsed fullHour14) (may1 14)) = 27"
    by code_simp
  from bucket_rollover[OF h1 h2 h3] h1 h2 h3 d14 show ?thesis
    unfolding c14 c15
    by (auto simp: may1_def getMessageCounts_cli_def getMessageCounts_step_def)
qed

text \<open>
  Claim C6. Capacity is computed against the current wall-clock buckets with lazy reset:
  with 25 sends recorded under \<^verbatim>\<open>"14h"\<close>, a capacity check at hour 15 reports an hourly
  count of 0 while the daily count still includes the 25 sends. The capacity check of the
  step does so. The capacity check of the script is its call of \<^verbatim>\<open>getMessageCounts()\<close> at
  line 640, which runs before \<^verbatim>\<open>messagedRestaurantsPath\<close> (line 750) is initialised and
  returns 0 for both counts whatever the history holds: at hour 15 it reports a daily
  count of 0 for a history with 27 sends of the day. With 100 sends of the day, 25 of them
  under \<^verbatim>\<open>"14h"\<close>, the step stops at its daily limit, as the script would if it read the
  file, while the script goes on and messages both leads.
\<close>

theorem script_capacity_check_misses_history:
  "startCounts False (Parsed fullHour14) (may1 15) = \<lparr>hourly = 0, daily = 0\<rparr>
   \<and> getMessageCounts_cli (Parsed fullHour14) (may1 15) = \<lparr>hourly = 0, daily = 27\<rparr>
   \<and> getMessageCounts_step (Parsed fullHour14) (may1 15) = Inr \<lparr>hourly = 0, daily = 27\<rparr>
   \<and> hourly (getMessageCounts_cli (Parsed fullDay) (may1 14)) = 25
   \<and> getMessageCounts_step (Parsed fullDay) (may1 15) = Inr \<lparr>hourly = 0, daily = 100\<rparr>
   \<and> startCounts False (Parsed fullDay) (may1 15) = \<lparr>hourly = 0, daily = 0\<rparr>
   \<and> fst (handler calm ''Austin'' freshTowns (start (Parsed fullDay))) = DailyLimitReached
   \<and> fst (mainFrom True calm freshTowns (start (Parsed fullDay))) = DailyLimitExit
   \<and> fst (main calm freshTowns (start (Parsed fullDay))) = Completed
   \<and> map attemptedName (attempts (snd (main calm freshTowns (start (Parsed fullDay)))))
       = [''Taco Bar'', ''Pho House'']
   \<and> getMessageCounts_cli (historyFile (snd (main calm freshTowns (start (Parsed fullDay)))))
         (may1 15) = \<lparr>hourly = 2, daily = 102\<rparr>"
  by code_simp

section \<open>Reads of a missing or unreadable history\<close>

lemma getMessageCounts_cli_degrades:
  "f = Missing \<or> f = Corrupt \<Longrightarrow> getMessageCounts_cli f c = \<lparr>hourly = 0, daily = 0\<rparr>"
  by (auto simp: getMessageCounts_cli_def)

lemma isRestaurantMessaged_cli_degrades:
  "f = Missing \<or> f = Corrupt \<Longrightarrow> \<not> isRestaurantMessaged_cli f restaurantName"
  by (auto simp: isRestaurantMessaged_cli_def)

lemma getMessageCounts_step_missing:
  "getMessageCounts_step Missing c = Inr \<lparr>hourly = 0, daily = 0\<rparr>"
  by (simp add: getMessageCounts_step_def)

text \<open>
  Claim C9 says that every read of a missing, unreadable or invalid history degrades to
  an empty result, \<^verbatim>\<open>getMessageCounts\<close> returning \<^verbatim>\<open>{ hourly: 0, daily: 0 }\<close>. The
  \<^verbatim>\<open>getMessageCounts\<close> of send-dm.step.ts does so for a missing file only: when the file
  cannot be read or parsed, its \<^verbatim>\<open>catch\<close> block calls \<^verbatim>\<open>logger.error\<close> with no \<^verbatim>\<open>logger\<close> in
  scope, and the call ends with a \<open>ReferenceError\<close> and no counts.
\<close>

theorem getMessageCounts_step_corrupt:
  "getMessageCounts_step Corrupt (may1 15) = Inl ReferenceError
   \<and> getMessageCounts_step Corrupt (may1 15) \<noteq> Inr \<lparr>hourly = 0, daily = 0\<rparr>"
  by (simp add: getMessageCounts_step_def)

section \<open>Frames and invariants of a run\<close>

lemma retryLoop_unfold:
  "retryLoop e n u m (False, 0) w =
     (case sendMessage_cli e n u m w of
        (s1, w1) \<Rightarrow>
          if s1 then ((True, 1), w1)
          else (case sendMessage_cli e n u m w1 of (s2, w2) \<Rightarrow> ((s2, 2), w2)))"
  by (simp add: retryLoop.simps split: prod.splits)

lemma sendMessage_cli_frame:
  "sendMessage_cli e n u m w = (s, w') \<Longrightarrow>
     historyFile w' = historyFile w \<and> browserOpen w' = browserOpen w
     \<and> sendCalls w' = sendCalls w + 1
     \<and> attempts w' = attempts w @ [Attempt n u m s]"
  by (auto simp: sendMessage_cli_def Let_def)

lemma sendMessage_step_frame:
  "sendMessage_step e n u m w = (s, w') \<Longrightarrow>
     historyFile w' = historyFile w \<and> browserOpen w' = browserOpen w
     \<and> sendCalls w' = sendCalls w + 1
     \<and> attempts w' = attempts w @ [Attempt n u m s]"
  by (auto simp: sendMessage_step_def Let_def)

lemma retryLoop_frame:
  assumes "retryLoop e n u m (False, 0) w = ((s, k), w')"
  shows "historyFile w' = historyFile w \<and> browserOpen w' = browserOpen w
     \<and> (\<exists>new. attempts w' = attempts w @ new \<and> (\<forall>ev \<in> set new. attemptedName ev = n))"
proof -
  obtain s1 w1 where a1: "sendMessage_cli e n u m w = (s1, w1)"
    by (cases "sendMessage_cli e n u m w")
  obtain s2 w2 where a2: "sendMessage_cli e n u m w1 = (s2, w2)"
    by (cases "sendMessage_cli e n u m w1")
  note f1 = sendMessage_cli_frame[OF a1] and f2 = sendMessage_cli_frame[OF a2]
  show ?thesis
  proof (cases s1)
    case True
    with assms a1 have "w' = w1" by (simp add: retryLoop_unfold)
    with f1 show ?thesis by simp
  next
    case False
    with assms a1 a2 have "w' = w2" by (simp add: retryLoop_unfold)
    with f1 f2 show ?thesis by simp
  qed
qed

lemma weight_setProp:
  "weight g (setProp ob k v) + (case getProp ob k of None \<Rightarrow> 0 | Some v0 \<Rightarrow> g v0)
     = weight g ob + g v"
  by (induction ob) (auto simp: weight_def getProp_def)

lemma weight_getProp_le: "getProp ob k = Some v \<Longrightarrow> g v \<le> weight g ob"
  by (induction ob) (auto simp: weight_def getProp_def split: if_splits)

lemma weight_pos_iff: "0 < weight g ob \<longleftrightarrow> list_ex (\<lambda>(k, v). 0 < g v) ob"
  by (induction ob) (auto simp: weight_def)

lemma holds_pos_iff: "0 < holds n names \<longleftrightarrow> getProp names n = Some True"
  by (simp add: holds_def)

lemma recordedIn_pos_messagedIn: "0 < recordedIn m n \<Longrightarrow> messagedIn m n"
  by (force simp: messagedIn_def recordedIn_def weight_pos_iff holds_pos_iff list_ex_iff
        truthyProp_def)

lemma unmessaged_recordedIn: "\<not> messagedIn m n \<Longrightarrow> recordedIn m n = 0"
  using recordedIn_pos_messagedIn[of m n] by auto

lemma recordedIn_markMessaged:
  "recordedIn (markMessaged m c n') n
     + holds n (case getProp (case getProp m (today c) of None \<Rightarrow> [] | Some d \<Rightarrow> d)
                       (currentHourKey c) of None \<Rightarrow> [] | Some ns \<Rightarrow> ns)
   = recordedIn m n
     + holds n (assignTrue (case getProp (case getProp m (today c) of None \<Rightarrow> [] | Some d \<Rightarrow> d)
                       (currentHourKey c) of None \<Rightarrow> [] | Some ns \<Rightarrow> ns) n')"
proof -
  define day where "day = (case getProp m (today c) of None \<Rightarrow> [] | Some d \<Rightarrow> d)"
  define names where "names = (case getProp day (currentHourKey c) of None \<Rightarrow> [] | Some ns \<Rightarrow> ns)"
  define names' where "names' = assignTrue names n'"
  define day' where "day' = setProp day (currentHourKey c) names'"
  have mm: "markMessaged m c n' = setProp m (today c) day'"
    by (simp add: markMessaged_def Let_def day_def names_def names'_def day'_def)
  have old_names: "(case getProp day (currentHourKey c) of None \<Rightarrow> 0 | Some v0 \<Rightarrow> holds n v0)
                     = holds n names"
    by (simp add: names_def holds_def getProp_def split: option.splits)
  have old_day: "(case getProp m (today c) of None \<Rightarrow> 0 | Some v0 \<Rightarrow> weight (holds n) v0)
                     = weight (holds n) day"
    by (simp add: day_def weight_def split: option.splits)
  have inner: "weight (holds n) day' + holds n names = weight (holds n) day + holds n names'"
    using weight_setProp[of "holds n" day "currentHourKey c" names'] old_names
    by (simp add: day'_def)
  have outer: "recordedIn (markMessaged m c n') n + weight (holds n) day
                 = recordedIn m n + weight (holds n) day'"
    using weight_setProp[of "weight (holds n)" m "today c" day'] old_day
    by (simp add: mm recordedIn_def)
  from inner outer have "recordedIn (markMessaged m c n') n + holds n names
                           = recordedIn m n + holds n names'"
    by simp
  then show ?thesis by (simp add: names_def day_def names'_def)
qed

lemma recordedIn_markMessaged_other:
  "n' \<noteq> n \<Longrightarrow> recordedIn (markMessaged m c n') n = recordedIn m n"
  using recordedIn_markMessaged[of m c n' n]
  by (simp add: holds_def getProp_assignTrue_other)

lemma holds_le_recordedIn:
  "holds n (case getProp (case getProp m (today c) of None \<Rightarrow> [] | Some d \<Rightarrow> d)
                       (currentHourKey c) of None \<Rightarrow> [] | Some ns \<Rightarrow> ns) \<le> recordedIn m n"
proof (cases "getProp m (today c)")
  case None
  then show ?thesis by (simp add: holds_def getProp_def)
next
  case (Some d)
  note d = this
  show ?thesis
  proof (cases "getProp d (currentHourKey c)")
    case None
    with d show ?thesis by (simp add: holds_def getProp_def)
  next
    case (Some ns)
    have "holds n ns \<le> weight (holds n) d" using Some by (rule weight_getProp_le)
    also have "\<dots> \<le> recordedIn m n" unfolding recordedIn_def using d by (rule weight_getProp_le)
    finally show ?thesis using d Some by simp
  qed
qed

lemma recordedIn_markMessaged_new:
  assumes "recordedIn m n = 0"
  shows "recordedIn (markMessaged m c n) n \<le> 1"
  using assms holds_le_recordedIn[of n m c] recordedIn_markMessaged[of m c n n]
  by (simp add: holds_def split: if_splits)

lemma recordings_pos_messaged: "0 < recordings f n \<Longrightarrow> isRestaurantMessaged_cli f n"
  by (cases f) (simp_all add: isRestaurantMessaged_cli_def recordings_def recordedIn_pos_messagedIn)

lemma unmessaged_recordings: "\<not> isRestaurantMessaged_cli f n \<Longrightarrow> recordings f n = 0"
  using recordings_pos_messaged[of f n] by auto

lemma recordedIn_empty: "recordedIn [] n = 0"
  by (simp add: recordedIn_def weight_def)

lemma messagedIn_empty: "\<not> messagedIn [] n"
  by (simp add: messagedIn_def)

lemma save_cli_recordings_other:
  "n' \<noteq> n \<Longrightarrow> recordings (saveMessagedRestaurant_cli f c ok n') n = recordings f n"
  by (cases f)
     (simp_all add: saveMessagedRestaurant_cli_def recordings_def recordedIn_markMessaged_other
        recordedIn_empty)

lemma save_cli_recordings_new:
  assumes "recordings f n = 0"
  shows "recordings (saveMessagedRestaurant_cli f c ok n) n \<le> 1"
proof (cases f)
  case Missing
  with recordedIn_markMessaged_new[of "[]" n c] show ?thesis
    by (simp add: saveMessagedRestaurant_cli_def recordings_def recordedIn_empty)
next
  case Corrupt
  then show ?thesis by (simp add: saveMessagedRestaurant_cli_def recordings_def)
next
  case (Parsed m)
  with assms recordedIn_markMessaged_new[of m n c] show ?thesis
    by (simp add: saveMessagedRestaurant_cli_def recordings_def)
qed

lemma holds_assignTrue_mono: "holds n names \<le> holds n (assignTrue names n')"
  by (auto simp: holds_def assignTrue_def getProp_setProp)

lemma recordedIn_markMessaged_mono: "recordedIn m n \<le> recordedIn (markMessaged m c n') n"
  using recordedIn_markMessaged[of m c n' n]
        holds_assignTrue_mono[of n "case getProp (case getProp m (today c) of None \<Rightarrow> [] | Some d \<Rightarrow> d)
                       (currentHourKey c) of None \<Rightarrow> [] | Some ns \<Rightarrow> ns" n']
  by linarith

lemma save_cli_recordings_mono:
  "recordings f n \<le> recordings (saveMessagedRestaurant_cli f c ok n') n"
  by (cases f)
     (simp_all add: saveMessagedRestaurant_cli_def recordings_def recordedIn_markMessaged_mono
        recordedIn_empty)

lemma save_step_is_cli:
  "saveMessagedRestaurant_step f c ok n = Inr f' \<Longrightarrow> f' = saveMessagedRestaurant_cli f c ok n"
  by (cases f) (auto simp: saveMessagedRestaurant_step_def saveMessagedRestaurant_cli_def
                     split: if_splits)

lemma quiet_refl: "isRestaurantMessaged_cli (historyFile w) R \<Longrightarrow> quiet R w w"
  by (simp add: quiet_def)

lemma quiet_trans: "quiet R w w' \<Longrightarrow> quiet R w' w'' \<Longrightarrow> quiet R w w''"
  by (auto simp: quiet_def)

lemma save_cli_keeps:
  "isRestaurantMessaged_cli f R \<Longrightarrow> isRestaurantMessaged_cli (saveMessagedRestaurant_cli f c ok n) R"
  by (auto simp: isRestaurantMessaged_cli_def saveMessagedRestaurant_cli_def
           messagedIn_markMessaged_mono split: messagedFile.splits)

lemma save_step_keeps:
  "isRestaurantMessaged_cli f R \<Longrightarrow> saveMessagedRestaurant_step f c ok n = Inr f' \<Longrightarrow>
     isRestaurantMessaged_cli f' R"
  by (auto simp: isRestaurantMessaged_cli_def saveMessagedRestaurant_step_def
           messagedIn_markMessaged_mono split: messagedFile.splits if_splits)

lemma restaurantLoop_quiet:
  "isRestaurantMessaged_cli (historyFile w) R \<Longrightarrow>
     quiet R w (snd (restaurantLoop e bl rs cnt w))"
proof (induction e bl rs cnt w rule: restaurantLoop.induct)
  case (1 e bl dm hc w)
  then show ?case by (simp add: quiet_refl)
next
  case (2 e bl n r rest dm hc w)
  note msg = "2.prems"
  show ?case
  proof (cases "hc \<ge> 25 \<or> dm \<ge> bl")
    case True
    with msg show ?thesis by (auto simp: quiet_refl)
  next
    case lim: False
    show ?thesis
    proof (cases "\<not> hasInstagram r \<or> isRestaurantMessaged_cli (historyFile w) n")
      case True
      with lim "2.IH"(1,2) msg show ?thesis by auto
    next
      case elig: False
      show ?thesis
      proof (cases "extractInstagramUsername_cli (instagramUrl r)")
        case None
        with lim elig "2.IH"(3) msg show ?thesis by auto
      next
        case (Some u)
        obtain s k w' where rl: "retryLoop e n u (generateMessage (name r)) (False, 0) w = ((s, k), w')"
          by (cases "retryLoop e n u (generateMessage (name r)) (False, 0) w") auto
        from elig msg have ne: "n \<noteq> R" by auto
        from retryLoop_frame[OF rl] ne msg have q1: "quiet R w w'"
          by (auto simp: quiet_def)
        then have m': "isRestaurantMessaged_cli (historyFile w') R" by (simp add: quiet_def)
        show ?thesis
        proof (cases s)
          case True
          let ?w2 = "w'\<lparr>historyFile := saveMessagedRestaurant_cli (historyFile w')
                         (clockAt e (sendCalls w')) (writeOk e (sendCalls w')) n\<rparr>"
          have m2: "isRestaurantMessaged_cli (historyFile ?w2) R"
            using m' by (simp add: save_cli_keeps)
          have "quiet R w' ?w2" using m2 by (simp add: quiet_def save_cli_recordings_mono)
          with q1 have q2: "quiet R w ?w2" by (rule quiet_trans)
          have "quiet R ?w2 (snd (restaurantLoop e bl rest (dm + 1, hc + 1) ?w2))"
            by (rule "2.IH"(4)) (use lim elig Some rl True m2 in auto)
          with q2 have "quiet R w (snd (restaurantLoop e bl rest (dm + 1, hc + 1) ?w2))"
            by (rule quiet_trans)
          with lim elig Some rl True show ?thesis by simp
        next
          case False
          have "quiet R w' (snd (restaurantLoop e bl rest (dm, hc) w'))"
            by (rule "2.IH"(5)) (use lim elig Some rl False m' in auto)
          with q1 have "quiet R w (snd (restaurantLoop e bl rest (dm, hc) w'))"
            by (rule quiet_trans)
          with lim elig Some rl False show ?thesis by simp
        qed
      qed
    qed
  qed
qed

lemma locationLoop_quiet:
  "isRestaurantMessaged_cli (historyFile w) R \<Longrightarrow>
     quiet R w (locationLoop e h0 bl locs w)"
proof (induction locs arbitrary: w)
  case Nil
  then show ?case by (simp add: quiet_refl)
next
  case (Cons loc locs)
  obtain l rs where loc: "loc = (l, rs)" by (cases loc)
  let ?w1 = "snd (restaurantLoop e bl rs (0, h0) w)"
  have q1: "quiet R w ?w1" using Cons.prems by (rule restaurantLoop_quiet)
  then have "isRestaurantMessaged_cli (historyFile ?w1) R" by (simp add: quiet_def)
  then have "quiet R ?w1 (locationLoop e h0 bl locs ?w1)" by (rule Cons.IH)
  with q1 loc show ?case by (auto intro: quiet_trans)
qed

lemma quiet_same_log:
  "quiet R w w' \<Longrightarrow> historyFile w'' = historyFile w' \<Longrightarrow> attempts w'' = attempts w' \<Longrightarrow>
     quiet R w w''"
  by (simp add: quiet_def)

lemma quiet_from_same_log:
  "quiet R w' w'' \<Longrightarrow> attempts w' = attempts w \<and> historyFile w' = historyFile w \<Longrightarrow>
     quiet R w w''"
  by (simp add: quiet_def)

lemma init_frame:
  "init e w = Inr w1 \<Longrightarrow> historyFile w1 = historyFile w \<and> attempts w1 = attempts w"
  by (auto simp: init_def split: launchOutcome.splits)

lemma afterInit_frame:
  "historyFile (afterInit e w) = historyFile w \<and> attempts (afterInit e w) = attempts w"
  by (auto simp: afterInit_def split: launchOutcome.splits)

lemma main_quiet:
  assumes "isRestaurantMessaged_cli (historyFile w) R"
  shows "quiet R w (snd (mainFrom b e restaurantData w))"
proof -
  note q0 = quiet_refl[OF assms]
  show ?thesis
  proof (cases "init e w")
    case (Inl err)
    with q0 afterInit_frame[of e w] show ?thesis
      by (auto simp: mainFrom_def Let_def intro: quiet_same_log)
  next
    case (Inr w1)
    from init_frame[OF Inr] have f1: "historyFile w1 = historyFile w" "attempts w1 = attempts w"
      by simp_all
    with assms have m1: "isRestaurantMessaged_cli (historyFile w1) R" by simp
    have "quiet R w1 (locationLoop e h0 bl restaurantData w1)" for h0 bl
      using m1 by (rule locationLoop_quiet)
    then have "quiet R w (close (locationLoop e h0 bl restaurantData w1))" for h0 bl
      using f1 by (auto simp: quiet_def close_def)
    with q0 Inr f1 show ?thesis
      by (auto simp: mainFrom_def Let_def quiet_def)
  qed
qed

lemma restaurantsToMessage_filter:
  assumes "f \<noteq> Corrupt"
  shows "restaurantsToMessage f leads =
           Inr (map (\<lambda>(n, r). (n, instagramUrl r))
                 (filter (\<lambda>(n, r). hasInstagram r \<and> \<not> isRestaurantMessaged_cli f n) leads))"
proof (induction leads)
  case Nil
  show ?case by simp
next
  case (Cons lead leads)
  obtain n r where lead: "lead = (n, r)" by (cases lead)
  from assms have "isRestaurantMessaged_step f n = Inr (isRestaurantMessaged_cli f n)"
    by (cases f) (simp_all add: isRestaurantMessaged_step_def isRestaurantMessaged_cli_def)
  with Cons lead show ?case by simp
qed

lemma sendLoop_quiet:
  "isRestaurantMessaged_cli (historyFile w) R \<Longrightarrow> R \<notin> fst ` set ms \<Longrightarrow>
     quiet R w (snd (sendLoop e ms cnt w))"
proof (induction e ms cnt w rule: sendLoop.induct)
  case (1 e sc hc w)
  then show ?case by (simp add: quiet_refl)
next
  case (2 e n url rest sc hc w)
  note msg = "2.prems"(1)
  from "2.prems"(2) have ne: "n \<noteq> R" and rest: "R \<notin> fst ` set rest" by auto
  show ?case
  proof (cases "hc \<ge> 25")
    case True
    with msg show ?thesis by (simp add: quiet_refl)
  next
    case lim: False
    show ?thesis
    proof (cases "extractInstagramUsername_step url")
      case None
      with lim "2.IH"(1) msg rest show ?thesis by simp
    next
      case (Some u)
      obtain s w' where sm: "sendMessage_step e n u (generateMessage n) w = (s, w')"
        by (cases "sendMessage_step e n u (generateMessage n) w")
      from sendMessage_step_frame[OF sm] ne msg have q1: "quiet R w w'"
        by (auto simp: quiet_def)
      then have m': "isRestaurantMessaged_cli (historyFile w') R" by (simp add: quiet_def)
      show ?thesis
      proof (cases s)
        case False
        have "quiet R w' (snd (sendLoop e rest (sc, hc) w'))"
          by (rule "2.IH"(4)) (use lim Some sm False m' rest in auto)
        with q1 have "quiet R w (snd (sendLoop e rest (sc, hc) w'))" by (rule quiet_trans)
        with lim Some sm False show ?thesis by simp
      next
        case True
        show ?thesis
        proof (cases "saveMessagedRestaurant_step (historyFile w') (clockAt e (sendCalls w'))
                        (writeOk e (sendCalls w')) n")
          case (Inl err)
          have "quiet R w' (snd (sendLoop e rest (sc, hc) w'))"
            by (rule "2.IH"(2)) (use lim Some sm True Inl m' rest in auto)
          with q1 have "quiet R w (snd (sendLoop e rest (sc, hc) w'))" by (rule quiet_trans)
          with lim Some sm True Inl show ?thesis by simp
        next
          case (Inr f')
          let ?w2 = "w'\<lparr>historyFile := f'\<rparr>"
          have m2: "isRestaurantMessaged_cli (historyFile ?w2) R"
            using save_step_keeps[OF m' Inr] by simp
          have "quiet R w' ?w2"
            using m2 save_step_is_cli[OF Inr] by (simp add: quiet_def save_cli_recordings_mono)
          with q1 have q2: "quiet R w ?w2" by (rule quiet_trans)
          have "quiet R ?w2 (snd (sendLoop e rest (sc + 1, hc + 1) ?w2))"
            by (rule "2.IH"(3)) (use lim Some sm True Inr m2 rest in auto)
          with q2 have "quiet R w (snd (sendLoop e rest (sc + 1, hc + 1) ?w2))"
            by (rule quiet_trans)
          with lim Some sm True Inr show ?thesis by simp
        qed
      qed
    qed
  qed
qed

lemma messaged_not_Corrupt: "isRestaurantMessaged_cli f R \<Longrightarrow> f \<noteq> Corrupt"
  by (auto simp: isRestaurantMessaged_cli_def)

lemma restaurantsToMessage_excludes:
  assumes "isRestaurantMessaged_cli f R"
  shows "\<exists>sel. restaurantsToMessage f leads = Inr sel \<and> R \<notin> fst ` set sel"
  using assms restaurantsToMessage_filter[OF messaged_not_Corrupt[OF assms], of leads]
  by force

lemma handlerTry_quiet:
  assumes "isRestaurantMessaged_cli (historyFile w) R"
  shows "quiet R w (snd (handlerTry e location allRestaurants w))"
proof -
  note q0 = quiet_refl[OF assms]
  have nc: "historyFile w \<noteq> Corrupt" using assms by (rule messaged_not_Corrupt)
  then obtain c where c: "getMessageCounts_step (historyFile w) (startClock e) = Inr c"
    by (cases "historyFile w") (auto simp: getMessageCounts_step_def)
  define rs where "rs = (case getProp allRestaurants (toLowerCase location) of
                           None \<Rightarrow> [] | Some rs \<Rightarrow> rs)"
  obtain sel where sel: "restaurantsToMessage (historyFile w) rs = Inr sel"
    and ex: "R \<notin> fst ` set sel"
    using restaurantsToMessage_excludes[OF assms, of rs] by auto
  define bl where "bl = min (25 - hourly c) (100 - daily c)"
  have ex': "R \<notin> fst ` set (take bl sel)" using ex by (auto dest: in_set_takeD)
  show ?thesis
  proof (cases "init e w")
    case (Inl err)
    with q0 afterInit_frame[of e w] c sel show ?thesis
      by (auto simp: handlerTry_def Let_def rs_def[symmetric] intro: quiet_same_log)
  next
    case (Inr w1)
    from init_frame[OF Inr] have f1: "historyFile w1 = historyFile w" "attempts w1 = attempts w"
      by simp_all
    with assms have m1: "isRestaurantMessaged_cli (historyFile w1) R" by simp
    have "quiet R w1 (snd (sendLoop e (take bl sel) (0, hourly c) w1))"
      using m1 ex' by (rule sendLoop_quiet)
    then have "quiet R w (snd (sendLoop e (take bl sel) (0, hourly c) w1))"
      using f1 by (auto simp: quiet_def)
    with q0 Inr f1 c sel show ?thesis
      by (auto simp: handlerTry_def Let_def rs_def[symmetric] bl_def[symmetric] quiet_def
               split: prod.splits)
  qed
qed

lemma handler_quiet:
  assumes "isRestaurantMessaged_cli (historyFile w) R"
  shows "quiet R w (snd (handler e location allRestaurants w))"
  using handlerTry_quiet[OF assms, of e location allRestaurants]
  by (auto simp: handler_def quiet_def close_def split: prod.splits sum.splits)

lemma campaign_quiet:
  "isRestaurantMessaged_cli (historyFile w) R \<Longrightarrow> quiet R w (campaign runs w)"
proof (induction runs arbitrary: w)
  case Nil
  then show ?case by (simp add: quiet_refl)
next
  case (Cons r runs)
  have n: "isRestaurantMessaged_cli (historyFile (newAutomation w)) R"
    using Cons.prems by (simp add: newAutomation_def)
  have a: "attempts (newAutomation w) = attempts w
           \<and> historyFile (newAutomation w) = historyFile w"
    by (simp add: newAutomation_def)
  show ?case
  proof (cases r)
    case (ScriptRun e d)
    let ?w1 = "snd (main e d (newAutomation w))"
    have "quiet R (newAutomation w) ?w1" unfolding main_def using n by (rule main_quiet)
    then have q1: "quiet R w ?w1" using a by (rule quiet_from_same_log)
    then have "isRestaurantMessaged_cli (historyFile ?w1) R" by (simp add: quiet_def)
    then have "quiet R ?w1 (campaign runs ?w1)" by (rule Cons.IH)
    with q1 ScriptRun show ?thesis by (auto intro: quiet_trans)
  next
    case (StepRun e l d)
    let ?w1 = "snd (handler e l d (newAutomation w))"
    have "quiet R (newAutomation w) ?w1" using n by (rule handler_quiet)
    then have q1: "quiet R w ?w1" using a by (rule quiet_from_same_log)
    then have "isRestaurantMessaged_cli (historyFile ?w1) R" by (simp add: quiet_def)
    then have "quiet R ?w1 (campaign runs ?w1)" by (rule Cons.IH)
    with q1 StepRun show ?thesis by (auto intro: quiet_trans)
  qed
qed

lemma save_cli_atMostOnce:
  assumes "atMostOnce f" and "recordings f n = 0"
  shows "atMostOnce (saveMessagedRestaurant_cli f c ok n)"
  unfolding atMostOnce_def
proof
  fix k
  show "recordings (saveMessagedRestaurant_cli f c ok n) k \<le> 1"
  proof (cases "k = n")
    case True
    with save_cli_recordings_new[OF assms(2), of c ok] show ?thesis by simp
  next
    case False
    with assms(1) show ?thesis by (simp add: save_cli_recordings_other atMostOnce_def)
  qed
qed

lemma restaurantLoop_atMostOnce:
  "atMostOnce (historyFile w) \<Longrightarrow> atMostOnce (historyFile (snd (restaurantLoop e bl rs cnt w)))"
proof (induction e bl rs cnt w rule: restaurantLoop.induct)
  case (1 e bl dm hc w)
  then show ?case by simp
next
  case (2 e bl n r rest dm hc w)
  note inv = "2.prems"
  show ?case
  proof (cases "hc \<ge> 25 \<or> dm \<ge> bl")
    case True
    with inv show ?thesis by auto
  next
    case lim: False
    show ?thesis
    proof (cases "\<not> hasInstagram r \<or> isRestaurantMessaged_cli (historyFile w) n")
      case True
      with lim "2.IH"(1,2) inv show ?thesis by auto
    next
      case elig: False
      show ?thesis
      proof (cases "extractInstagramUsername_cli (instagramUrl r)")
        case None
        with lim elig "2.IH"(3) inv show ?thesis by auto
      next
        case (Some u)
        obtain s k w' where rl: "retryLoop e n u (generateMessage (name r)) (False, 0) w = ((s, k), w')"
          by (cases "retryLoop e n u (generateMessage (name r)) (False, 0) w") auto
        from retryLoop_frame[OF rl] have f': "historyFile w' = historyFile w" by simp
        show ?thesis
        proof (cases s)
          case True
          let ?w2 = "w'\<lparr>historyFile := saveMessagedRestaurant_cli (historyFile w')
                         (clockAt e (sendCalls w')) (writeOk e (sendCalls w')) n\<rparr>"
          have i2: "atMostOnce (historyFile ?w2)"
            using inv elig f' by (simp add: save_cli_atMostOnce unmessaged_recordings)
          have "atMostOnce (historyFile (snd (restaurantLoop e bl rest (dm + 1, hc + 1) ?w2)))"
            by (rule "2.IH"(4)) (use lim elig Some rl True i2 in auto)
          with lim elig Some rl True show ?thesis by simp
        next
          case False
          have "atMostOnce (historyFile (snd (restaurantLoop e bl rest (dm, hc) w')))"
            by (rule "2.IH"(5)) (use lim elig Some rl False inv f' in auto)
          with lim elig Some rl False show ?thesis by simp
        qed
      qed
    qed
  qed
qed

lemma sendLoop_atMostOnce:
  "atMostOnce (historyFile w) \<Longrightarrow> distinct (map fst ms) \<Longrightarrow>
     \<forall>n \<in> fst ` set ms. recordings (historyFile w) n = 0 \<Longrightarrow>
     atMostOnce (historyFile (snd (sendLoop e ms cnt w)))"
proof (induction e ms cnt w rule: sendLoop.induct)
  case (1 e sc hc w)
  then show ?case by simp
next
  case (2 e n url rest sc hc w)
  note inv = "2.prems"(1)
  from "2.prems"(2) have nr: "n \<notin> fst ` set rest" and dr: "distinct (map fst rest)" by auto
  from "2.prems"(3) have un: "recordings (historyFile w) n = 0"
    and ur: "\<forall>k \<in> fst ` set rest. recordings (historyFile w) k = 0" by auto
  show ?case
  proof (cases "hc \<ge> 25")
    case True
    with inv show ?thesis by simp
  next
    case lim: False
    show ?thesis
    proof (cases "extractInstagramUsername_step url")
      case None
      with lim "2.IH"(1) inv dr ur show ?thesis by simp
    next
      case (Some u)
      obtain s w' where sm: "sendMessage_step e n u (generateMessage n) w = (s, w')"
        by (cases "sendMessage_step e n u (generateMessage n) w")
      from sendMessage_step_frame[OF sm] have f': "historyFile w' = historyFile w" by simp
      show ?thesis
      proof (cases s)
        case False
        have "atMostOnce (historyFile (snd (sendLoop e rest (sc, hc) w')))"
          by (rule "2.IH"(4)) (use lim Some sm False inv f' dr ur in auto)
        with lim Some sm False show ?thesis by simp
      next
        case True
        show ?thesis
        proof (cases "saveMessagedRestaurant_step (historyFile w') (clockAt e (sendCalls w'))
                        (writeOk e (sendCalls w')) n")
          case (Inl err)
          have "atMostOnce (historyFile (snd (sendLoop e rest (sc, hc) w')))"
            by (rule "2.IH"(2)) (use lim Some sm True Inl inv f' dr ur in auto)
          with lim Some sm True Inl show ?thesis by simp
        next
          case (Inr f2)
          let ?w2 = "w'\<lparr>historyFile := f2\<rparr>"
          have f2: "f2 = saveMessagedRestaurant_cli (historyFile w) (clockAt e (sendCalls w'))
                        (writeOk e (sendCalls w')) n"
            using save_step_is_cli[OF Inr] f' by simp
          have i2: "atMostOnce (historyFile ?w2)"
            using inv un by (simp add: f2 save_cli_atMostOnce)
          have u2: "\<forall>k \<in> fst ` set rest. recordings (historyFile ?w2) k = 0"
          proof
            fix k assume k: "k \<in> fst ` set rest"
            with nr have "n \<noteq> k" by auto
            moreover from ur k have "recordings (historyFile w) k = 0" by auto
            ultimately show "recordings (historyFile ?w2) k = 0"
              by (simp add: f2 save_cli_recordings_other)
          qed
          have "atMostOnce (historyFile (snd (sendLoop e rest (sc + 1, hc + 1) ?w2)))"
            by (rule "2.IH"(3)) (use lim Some sm True Inr i2 dr u2 in auto)
          with lim Some sm True Inr show ?thesis by simp
        qed
      qed
    qed
  qed
qed

lemma locationLoop_atMostOnce:
  "atMostOnce (historyFile w) \<Longrightarrow> atMostOnce (historyFile (locationLoop e h0 bl locs w))"
proof (induction locs arbitrary: w)
  case Nil
  then show ?case by simp
next
  case (Cons loc locs)
  obtain l rs where loc: "loc = (l, rs)" by (cases loc)
  have "atMostOnce (historyFile (snd (restaurantLoop e bl rs (0, h0) w)))"
    using Cons.prems by (rule restaurantLoop_atMostOnce)
  then show ?case using loc by (simp add: Cons.IH)
qed

lemma main_atMostOnce:
  assumes "atMostOnce (historyFile w)"
  shows "atMostOnce (historyFile (snd (mainFrom b e restaurantData w)))"
proof (cases "init e w")
  case (Inl err)
  with assms afterInit_frame[of e w] show ?thesis by (simp add: mainFrom_def Let_def)
next
  case (Inr w1)
  with init_frame[OF Inr] assms have "atMostOnce (historyFile w1)" by simp
  then have "atMostOnce (historyFile (locationLoop e h0 bl restaurantData w1))" for h0 bl
    by (rule locationLoop_atMostOnce)
  with assms Inr init_frame[OF Inr] show ?thesis
    by (simp add: mainFrom_def Let_def close_def)
qed

lemma handlerTry_atMostOnce:
  assumes "atMostOnce (historyFile w)"
      and "list_all (\<lambda>(location, restaurants). distinct (Object_keys restaurants)) allRestaurants"
  shows "atMostOnce (historyFile (snd (handlerTry e location allRestaurants w)))"
proof (cases "getMessageCounts_step (historyFile w) (startClock e)")
  case (Inl err)
  with assms show ?thesis by (simp add: handlerTry_def)
next
  case (Inr c)
  then have nc: "historyFile w \<noteq> Corrupt" by (auto simp: getMessageCounts_step_def)
  define rs where "rs = (case getProp allRestaurants (toLowerCase location) of
                           None \<Rightarrow> [] | Some rs \<Rightarrow> rs)"
  define sel where "sel = map (\<lambda>(n, r). (n, instagramUrl r))
      (filter (\<lambda>(n, r). hasInstagram r \<and> \<not> isRestaurantMessaged_cli (historyFile w) n) rs)"
  have sel: "restaurantsToMessage (historyFile w) rs = Inr sel"
    unfolding sel_def using nc by (rule restaurantsToMessage_filter)
  have drs: "distinct (map fst rs)"
    using assms(2) unfolding rs_def
    by (auto simp: list_all_iff Object_keys_def dest!: getProp_in_set split: option.splits)
  have fsel: "map fst sel = map fst (filter (\<lambda>(n, r). hasInstagram r
                 \<and> \<not> isRestaurantMessaged_cli (historyFile w) n) rs)"
    by (simp add: sel_def case_prod_unfold comp_def)
  have dsel: "distinct (map fst sel)"
    unfolding fsel using drs by (rule distinct_map_filter)
  have usel: "\<forall>n \<in> fst ` set sel. recordings (historyFile w) n = 0"
    by (auto simp: sel_def unmessaged_recordings)
  define bl where "bl = min (25 - hourly c) (100 - daily c)"
  have dt: "distinct (map fst (take bl sel))"
    using dsel by (simp add: take_map[symmetric])
  have ut: "\<forall>n \<in> fst ` set (take bl sel). recordings (historyFile w) n = 0"
    using usel by (auto dest: in_set_takeD)
  show ?thesis
  proof (cases "init e w")
    case (Inl err)
    with assms(1) afterInit_frame[of e w] Inr sel show ?thesis
      by (simp add: handlerTry_def Let_def rs_def[symmetric])
  next
    case w1: (Inr w1)
    from init_frame[OF w1] have f1: "historyFile w1 = historyFile w" by simp
    have "atMostOnce (historyFile (snd (sendLoop e (take bl sel) (0, hourly c) w1)))"
      using assms(1) dt ut unfolding f1[symmetric] by (rule sendLoop_atMostOnce)
    with assms(1) Inr sel w1 f1 show ?thesis
      by (auto simp: handlerTry_def Let_def rs_def[symmetric] bl_def[symmetric]
               split: prod.splits)
  qed
qed

lemma handler_atMostOnce:
  assumes "atMostOnce (historyFile w)"
      and "list_all (\<lambda>(location, restaurants). distinct (Object_keys restaurants)) allRestaurants"
  shows "atMostOnce (historyFile (snd (handler e location allRestaurants w)))"
  using handlerTry_atMostOnce[OF assms, of e location]
  by (auto simp: handler_def close_def split: prod.splits sum.splits)

lemma campaign_atMostOnce:
  "atMostOnce (historyFile w) \<Longrightarrow> list_all distinctLeads runs \<Longrightarrow>
     atMostOnce (historyFile (campaign runs w))"
proof (induction runs arbitrary: w)
  case Nil
  then show ?case by simp
next
  case (Cons r runs)
  have n: "atMostOnce (historyFile (newAutomation w))"
    using Cons.prems(1) by (simp add: newAutomation_def)
  from Cons.prems(2) have dr: "distinctLeads r" and drs: "list_all distinctLeads runs" by simp_all
  show ?case
  proof (cases r)
    case (ScriptRun e d)
    have "atMostOnce (historyFile (snd (main e d (newAutomation w))))"
      unfolding main_def using n by (rule main_atMostOnce)
    then show ?thesis using ScriptRun drs by (simp add: Cons.IH)
  next
    case (StepRun e l d)
    have "atMostOnce (historyFile (snd (handler e l d (newAutomation w))))"
      using n dr StepRun by (simp add: handler_atMostOnce)
    then show ?thesis using StepRun drs by (simp add: Cons.IH)
  qed
qed

lemma not_in_image: "\<forall>x \<in> S. f x \<noteq> a \<Longrightarrow> a \<notin> f ` S"
  by auto

lemma quiet_drop:
  "quiet R w w' \<Longrightarrow> \<forall>ev \<in> set (drop (length (attempts w)) (attempts w')). attemptedName ev \<noteq> R"
  by (auto simp: quiet_def)

lemma save_cli_records:
  "f \<noteq> Corrupt \<Longrightarrow> isRestaurantMessaged_cli (saveMessagedRestaurant_cli f c True R) R"
  by (cases f) (simp_all add: saveMessagedRestaurant_cli_def isRestaurantMessaged_cli_def
                  messagedIn_markMessaged_same)


section \<open>Idempotence\<close>

text \<open>
  Claim C2. Let a send to a recipient \<open>R\<close> succeed and be recorded: the history file of
  the state \<open>w\<close> is what \<^verbatim>\<open>saveMessagedRestaurant(R)\<close> wrote, at whatever date and hour
  \<open>c\<close>. Then after any sequence of later runs (of the script or of the event step, with
  any leads and in any environment) \<^verbatim>\<open>isRestaurantMessaged(R)\<close> still returns true in both
  files' versions, no later call of \<^verbatim>\<open>sendMessage\<close> is for \<open>R\<close>, and the selection of
  candidates from any lead collection leaves \<open>R\<close> out.
\<close>

theorem idempotence:
  assumes "(f \<noteq> Corrupt \<and> historyFile w = saveMessagedRestaurant_cli f c True R)
           \<or> saveMessagedRestaurant_step f c ok R = Inr (historyFile w)"
  shows "isRestaurantMessaged_cli (historyFile (campaign runs w)) R
       \<and> isRestaurantMessaged_step (historyFile (campaign runs w)) R = Inr True
       \<and> (\<forall>ev \<in> set (drop (length (attempts w)) (attempts (campaign runs w))).
            attemptedName ev \<noteq> R)
       \<and> (\<forall>leads. \<exists>sel. restaurantsToMessage (historyFile (campaign runs w)) leads = Inr sel
            \<and> R \<notin> fst ` set sel)"
proof -
  from assms have m: "isRestaurantMessaged_cli (historyFile w) R"
  proof
    assume "f \<noteq> Corrupt \<and> historyFile w = saveMessagedRestaurant_cli f c True R"
    then show ?thesis by (simp add: save_cli_records)
  next
    assume s: "saveMessagedRestaurant_step f c ok R = Inr (historyFile w)"
    then have "f \<noteq> Corrupt" and "ok"
      by (cases f; auto simp: saveMessagedRestaurant_step_def split: if_splits)+
    with save_step_is_cli[OF s] show ?thesis by (simp add: save_cli_records)
  qed
  then have q: "quiet R w (campaign runs w)" by (rule campaign_quiet)
  then have m': "isRestaurantMessaged_cli (historyFile (campaign runs w)) R"
    by (simp add: quiet_def)
  then have s': "isRestaurantMessaged_step (historyFile (campaign runs w)) R = Inr True"
    by (cases "historyFile (campaign runs w)")
       (simp_all add: isRestaurantMessaged_cli_def isRestaurantMessaged_step_def)
  from m' s' quiet_drop[OF q] restaurantsToMessage_excludes[OF m'] show ?thesis by blast
qed

theorem idempotence_witness:
  "(Missing \<noteq> Corrupt
      \<and> historyFile (start afterDiner0) = saveMessagedRestaurant_cli Missing (may1 14) True ''Diner 0'')
   \<and> isRestaurantMessaged_cli
       (historyFile (campaign [StepRun calm ''Dallas'' twoTowns, ScriptRun calm twoTowns]
                      (start afterDiner0))) ''Diner 0''
   \<and> ''Diner 0'' \<notin> attemptedName ` set
        (attempts (campaign [StepRun calm ''Dallas'' twoTowns, ScriptRun calm twoTowns]
                    (start afterDiner0)))
   \<and> map attemptedName
       (attempts (campaign [StepRun calm ''Dallas'' twoTowns, ScriptRun calm twoTowns]
                   (start afterDiner0))) = [''Taco Bar'']"
proof -
  have h: "(Missing \<noteq> Corrupt
      \<and> historyFile (start afterDiner0) = saveMessagedRestaurant_cli Missing (may1 14) True ''Diner 0'')
      \<or> saveMessagedRestaurant_step Missing (may1 14) True ''Diner 0''
           = Inr (historyFile (start afterDiner0))"
    by (simp add: start_def afterDiner0_def)
  have a: "attempts (start afterDiner0) = []" by (simp add: start_def)
  have r: "map attemptedName
       (attempts (campaign [StepRun calm ''Dallas'' twoTowns, ScriptRun calm twoTowns]
                   (start afterDiner0))) = [''Taco Bar'']"
    by code_simp
  from idempotence[OF h, of "[StepRun calm ''Dallas'' twoTowns, ScriptRun calm twoTowns]"] a r
  show ?thesis by (auto simp: start_def afterDiner0_def)
qed

section \<open>The history is keyed by the restaurant name alone\<close>

lemma inherited_name_reads_as_messaged:
  "isRestaurantMessaged_cli afterDiner0 ''constructor''
   \<and> isRestaurantMessaged_step afterDiner0 ''constructor'' = Inr True
   \<and> recordings afterDiner0 ''constructor'' = 0
   \<and> \<not> isRestaurantMessaged_cli Missing ''constructor''
   \<and> \<not> isRestaurantMessaged_cli afterDiner0 ''Taco Bar''"
  by code_simp

text \<open>
  Claim C10. \<^verbatim>\<open>saveMessagedRestaurant\<close> and \<^verbatim>\<open>isRestaurantMessaged\<close> take the restaurant
  name and no location. Once \<^verbatim>\<open>isRestaurantMessaged(N)\<close> is true of the history, then after
  any later runs, whatever location and leads a further run of the step or of the script
  is given, it makes no call of \<^verbatim>\<open>sendMessage\<close> for a lead named \<open>N\<close>. And a history in
  which no name is held by more than one (date, hour) bucket stays so through all runs, so
  a name \<open>N\<close> that the history holds is held exactly once: one send is recorded per name,
  not per name and location. (The lead objects have no repeated keys, as every parsed JSON
  object. A name that every object inherits, such as \<^verbatim>\<open>constructor\<close>, reads as messaged as
  soon as the history has a bucket, without any bucket holding it:
  \<open>inherited_name_reads_as_messaged\<close>.)
\<close>

theorem history_keyed_by_name:
  assumes "isRestaurantMessaged_cli (historyFile w) N"
      and "atMostOnce (historyFile w)"
      and "list_all distinctLeads runs"
  shows "atMostOnce (historyFile (campaign runs w))
       \<and> (0 < recordings (historyFile w) N \<longrightarrow> recordings (historyFile (campaign runs w)) N = 1)
       \<and> recordings (historyFile (campaign runs w)) N \<le> 1
       \<and> (\<forall>e location allRestaurants.
            \<forall>ev \<in> set (drop (length (attempts (campaign runs w)))
                      (attempts (snd (handler e location allRestaurants
                                       (newAutomation (campaign runs w)))))).
              attemptedName ev \<noteq> N)
       \<and> (\<forall>e restaurantData.
            \<forall>ev \<in> set (drop (length (attempts (campaign runs w)))
                      (attempts (snd (main e restaurantData
                                       (newAutomation (campaign runs w)))))).
              attemptedName ev \<noteq> N)"
proof -
  define w' where "w' = campaign runs w"
  have a: "atMostOnce (historyFile w')"
    unfolding w'_def using assms(2,3) by (rule campaign_atMostOnce)
  have q: "quiet N w w'" unfolding w'_def using assms(1) by (rule campaign_quiet)
  then have m: "isRestaurantMessaged_cli (historyFile w') N" by (simp add: quiet_def)
  from q have ge: "recordings (historyFile w) N \<le> recordings (historyFile w') N"
    by (simp add: quiet_def)
  from a have le: "recordings (historyFile w') N \<le> 1" by (simp add: atMostOnce_def)
  from ge le have one: "0 < recordings (historyFile w) N \<longrightarrow> recordings (historyFile w') N = 1"
    by auto
  have mn: "isRestaurantMessaged_cli (historyFile (newAutomation w')) N"
    using m by (simp add: newAutomation_def)
  have an: "length (attempts (newAutomation w')) = length (attempts w')"
    by (simp add: newAutomation_def)
  have h: "\<forall>ev \<in> set (drop (length (attempts w'))
                      (attempts (snd (handler e location allRestaurants (newAutomation w'))))).
              attemptedName ev \<noteq> N" for e location allRestaurants
    using quiet_drop[OF handler_quiet[OF mn, of e location allRestaurants]] an by simp
  have s: "\<forall>ev \<in> set (drop (length (attempts w'))
                      (attempts (snd (main e restaurantData (newAutomation w'))))).
              attemptedName ev \<noteq> N" for e restaurantData
    using quiet_drop[OF main_quiet[OF mn, of False e restaurantData]] an by (simp add: main_def)
  from a one le h s show ?thesis unfolding w'_def by blast
qed

theorem history_keyed_by_name_witness:
  "isRestaurantMessaged_cli (historyFile (start afterDiner0)) ''Diner 0''
   \<and> atMostOnce (historyFile (start afterDiner0))
   \<and> list_all distinctLeads [ScriptRun calm twoTowns]
   \<and> recordings (historyFile (start afterDiner0)) ''Diner 0'' = 1
   \<and> recordings (historyFile (campaign [ScriptRun calm twoTowns] (start afterDiner0))) ''Diner 0'' = 1
   \<and> ''Diner 0'' \<notin> attemptedName ` set
        (drop (length (attempts (campaign [ScriptRun calm twoTowns] (start afterDiner0))))
           (attempts (snd (handler calm ''Dallas'' twoTowns
              (newAutomation (campaign [ScriptRun calm twoTowns] (start afterDiner0)))))))"
proof -
  have h1: "isRestaurantMessaged_cli (historyFile (start afterDiner0)) ''Diner 0''"
    by (simp add: start_def afterDiner0_def save_cli_records)
  have "atMostOnce Missing" by (simp add: atMostOnce_def recordings_def)
  then have h2: "atMostOnce (historyFile (start afterDiner0))"
    by (simp add: start_def afterDiner0_def save_cli_atMostOnce recordings_def)
  have h3: "list_all distinctLeads [ScriptRun calm twoTowns]"
    by (simp add: twoTowns_def lead_def Object_keys_def)
  have h4: "recordings (historyFile (start afterDiner0)) ''Diner 0'' = 1"
    by code_simp
  note t = history_keyed_by_name[OF h1 h2 h3]
  from t h4 have r: "recordings (historyFile (campaign [ScriptRun calm twoTowns] (start afterDiner0)))
                    ''Diner 0'' = 1"
    by simp
  from t have "\<forall>ev \<in> set (drop (length (attempts (campaign [ScriptRun calm twoTowns]
                                                    (start afterDiner0))))
                 (attempts (snd (handler calm ''Dallas'' twoTowns
                    (newAutomation (campaign [ScriptRun calm twoTowns] (start afterDiner0))))))).
              attemptedName ev \<noteq> ''Diner 0''"
    by blast
  then have q: "''Diner 0'' \<notin> attemptedName ` set
        (drop (length (attempts (campaign [ScriptRun calm twoTowns] (start afterDiner0))))
           (attempts (snd (handler calm ''Dallas'' twoTowns
              (newAutomation (campaign [ScriptRun calm twoTowns] (start afterDiner0)))))))"
    by (rule not_in_image)
  from h1 h2 h3 h4 r q show ?thesis by (intro conjI)
qed

section \<open>Order of selection\<close>

lemma retryLoop_attempts:
  assumes "retryLoop e n u m (False, 0) w = ((s, k), w')"
  shows "\<exists>new. attempts w' = attempts w @ new \<and> new \<noteq> []
           \<and> (\<forall>ev \<in> set new. attemptedName ev = n)"
proof -
  obtain s1 w1 where a1: "sendMessage_cli e n u m w = (s1, w1)"
    by (cases "sendMessage_cli e n u m w")
  obtain s2 w2 where a2: "sendMessage_cli e n u m w1 = (s2, w2)"
    by (cases "sendMessage_cli e n u m w1")
  note f1 = sendMessage_cli_frame[OF a1] and f2 = sendMessage_cli_frame[OF a2]
  show ?thesis
  proof (cases s1)
    case True
    with assms a1 have "w' = w1" by (simp add: retryLoop_unfold)
    with f1 show ?thesis by simp
  next
    case False
    with assms a1 a2 have "w' = w2" by (simp add: retryLoop_unfold)
    with f1 f2 show ?thesis by simp
  qed
qed

subsection \<open>The enumeration order of a parsed object\<close>

lemma indexValue_snoc: "indexValue (ks @ [c]) = 10 * indexValue ks + (of_char c - 48)"
  by (simp add: indexValue_def)

lemma digit_range: "isDigit c \<Longrightarrow> (48 :: int) \<le> of_char c \<and> of_char c \<le> (57 :: int)"
  by (auto simp: isDigit_def)

lemma digit_zero: "isDigit c \<Longrightarrow> (of_char c :: int) = 48 \<Longrightarrow> c = CHR ''0''"
  by (auto simp: isDigit_def)

lemma indexValue_nonneg: "list_all isDigit ks \<Longrightarrow> 0 \<le> indexValue ks"
proof (induction ks rule: rev_induct)
  case Nil
  show ?case by (simp add: indexValue_def)
next
  case (snoc c ks)
  then have "0 \<le> indexValue ks" and "isDigit c" by simp_all
  with digit_range[of c] show ?case by (simp add: indexValue_snoc)
qed

lemma indexValue_pos:
  "list_all isDigit ks \<Longrightarrow> ks \<noteq> [] \<Longrightarrow> hd ks \<noteq> CHR ''0'' \<Longrightarrow> 1 \<le> indexValue ks"
proof (induction ks rule: rev_induct)
  case Nil
  then show ?case by simp
next
  case (snoc c ks)
  from snoc.prems(1) have d: "isDigit c" and ds: "list_all isDigit ks" by simp_all
  show ?case
  proof (cases "ks = []")
    case True
    with snoc.prems(3) have "c \<noteq> CHR ''0''" by simp
    with d digit_zero[of c] digit_range[of c] have "(49 :: int) \<le> of_char c" by force
    with True show ?thesis by (simp add: indexValue_def)
  next
    case False
    with snoc.prems(3) have "hd ks \<noteq> CHR ''0''" by simp
    with snoc.IH ds False have "1 \<le> indexValue ks" by simp
    with digit_range[OF d] show ?thesis by (simp add: indexValue_snoc)
  qed
qed


lemma of_char_digit_inj:
  "isDigit c \<Longrightarrow> isDigit d \<Longrightarrow> (of_char c :: int) = of_char d \<Longrightarrow> c = d"
  by (auto simp: isDigit_def)

lemma canonical_inj:
  assumes "list_all isDigit ks" "ks \<noteq> []" "length ks = 1 \<or> hd ks \<noteq> CHR ''0''"
      and "list_all isDigit ks'" "ks' \<noteq> []" "length ks' = 1 \<or> hd ks' \<noteq> CHR ''0''"
      and "indexValue ks = indexValue ks'"
  shows "ks = ks'"
  using assms
proof (induction ks arbitrary: ks' rule: rev_induct)
  case Nil
  then show ?case by simp
next
  case (snoc c xs)
  from snoc.prems(5) obtain ys d where ks': "ks' = ys @ [d]" by (cases ks' rule: rev_cases) auto
  from snoc.prems(1) have dc: "isDigit c" and dxs: "list_all isDigit xs" by simp_all
  from snoc.prems(4) ks' have dd: "isDigit d" and dys: "list_all isDigit ys" by simp_all
  from snoc.prems(7) ks' have
    "10 * indexValue xs + (of_char c - 48) = 10 * indexValue ys + (of_char d - 48)"
    by (simp add: indexValue_snoc)
  with digit_range[OF dc] digit_range[OF dd]
  have v: "indexValue xs = indexValue ys" and "(of_char c :: int) = of_char d" by presburger+
  with dc dd have cd: "c = d" by (simp add: of_char_digit_inj)
  have xs0: "xs \<noteq> [] \<Longrightarrow> hd xs \<noteq> CHR ''0''" using snoc.prems(3) by auto
  have ys0: "ys \<noteq> [] \<Longrightarrow> hd ys \<noteq> CHR ''0''" using snoc.prems(6) ks' by auto
  show ?case
  proof (cases "xs = []")
    case True
    show ?thesis
    proof (cases "ys = []")
      case True
      with \<open>xs = []\<close> cd ks' show ?thesis by simp
    next
      case False
      with indexValue_pos[OF dys False] ys0 have "1 \<le> indexValue ys" by simp
      with v True show ?thesis by (simp add: indexValue_def)
    qed
  next
    case False
    note nx = this
    show ?thesis
    proof (cases "ys = []")
      case True
      from indexValue_pos[OF dxs nx] xs0 nx have "1 \<le> indexValue xs" by simp
      with v True show ?thesis by (simp add: indexValue_def)
    next
      case False
      have "xs = ys"
        using dxs nx xs0 dys False ys0 v by (intro snoc.IH) auto
      with cd ks' show ?thesis by simp
    qed
  qed
qed

lemma indexValue_inj:
  "isArrayIndex k \<Longrightarrow> isArrayIndex k' \<Longrightarrow> indexValue k = indexValue k' \<Longrightarrow> k = k'"
  by (rule canonical_inj) (simp_all add: isArrayIndex_def)


lemma getProp_Cons_None:
  "getProp ((k', v') # ps) k = None \<longleftrightarrow> k' \<noteq> k \<and> getProp ps k = None"
  by (simp add: getProp_def)

lemma getProp_None_iff: "getProp ob k = None \<longleftrightarrow> k \<notin> fst ` set ob"
  by (simp add: getProp_def map_of_eq_None_iff)

lemma setProp_new_other:
  "\<not> isArrayIndex k \<Longrightarrow> getProp ob k = None \<Longrightarrow> setProp ob k v = ob @ [(k, v)]"
  by (induction ob) (auto simp: getProp_Cons_None comesBefore_def)

lemma setProp_index_others:
  "isArrayIndex k \<Longrightarrow>
     filter (\<lambda>(n, r). \<not> isArrayIndex n) (setProp ob k v) = filter (\<lambda>(n, r). \<not> isArrayIndex n) ob"
proof (induction ob)
  case Nil
  then show ?case by simp
next
  case (Cons p ps)
  obtain k' v' where p: "p = (k', v')" by (cases p)
  consider (same) "k' = k"
    | (before) "k' \<noteq> k" "getProp ps k = None \<and> comesBefore k k'"
    | (after) "k' \<noteq> k" "\<not> (getProp ps k = None \<and> comesBefore k k')" by blast
  then show ?case
  proof cases
    case same
    with Cons.prems p show ?thesis by simp
  next
    case before
    with Cons.prems p show ?thesis by simp
  next
    case after
    with Cons p show ?thesis by simp
  qed
qed

lemma setProp_new_set:
  "getProp ob k = None \<Longrightarrow> set (setProp ob k v) = insert (k, v) (set ob)"
proof (induction ob)
  case Nil
  then show ?case by simp
next
  case (Cons p ps)
  obtain k' v' where p: "p = (k', v')" by (cases p)
  from Cons.prems p have ne: "k' \<noteq> k" and none: "getProp ps k = None"
    by (simp_all add: getProp_Cons_None)
  show ?case
  proof (cases "comesBefore k k'")
    case True
    with ne none p show ?thesis by auto
  next
    case False
    with ne none p Cons.IH show ?thesis by auto
  qed
qed

lemma setProp_existing_keys:
  "getProp ob k \<noteq> None \<Longrightarrow> map fst (setProp ob k v) = map fst ob"
proof (induction ob)
  case Nil
  then show ?case by (simp add: getProp_def)
next
  case (Cons p ps)
  obtain k' v' where p: "p = (k', v')" by (cases p)
  show ?case
  proof (cases "k' = k")
    case True
    with p show ?thesis by simp
  next
    case False
    with Cons.prems p have "getProp ps k \<noteq> None" by (simp add: getProp_def)
    with False p Cons.IH show ?thesis by simp
  qed
qed

lemma precedes_setProp_index:
  assumes "isArrayIndex k"
  shows "getProp ob k = None \<Longrightarrow> sorted_wrt precedes (map fst ob) \<Longrightarrow>
           sorted_wrt precedes (map fst (setProp ob k v))"
proof (induction ob)
  case Nil
  show ?case by simp
next
  case (Cons p ps)
  obtain k' v' where p: "p = (k', v')" by (cases p)
  from Cons.prems(1) p have ne: "k' \<noteq> k" and none: "getProp ps k = None"
    by (simp_all add: getProp_Cons_None)
  from Cons.prems(2) p have hd: "\<forall>x \<in> fst ` set ps. precedes k' x"
    and tl: "sorted_wrt precedes (map fst ps)" by auto
  show ?case
  proof (cases "comesBefore k k'")
    case True
    then have kk': "precedes k k'" by (auto simp: comesBefore_def precedes_def split: if_splits)
    have "precedes k x" if "x \<in> fst ` set ps" for x
    proof -
      from hd that have "precedes k' x" by blast
      with True assms show ?thesis by (auto simp: comesBefore_def precedes_def split: if_splits)
    qed
    with kk' Cons.prems(2) p True ne none show ?thesis by auto
  next
    case False
    with assms have ik': "isArrayIndex k'" and le: "indexValue k' \<le> indexValue k"
      by (auto simp: comesBefore_def split: if_splits)
    from indexValue_inj[OF ik' assms] ne le have "indexValue k' < indexValue k" by force
    with ik' assms have "precedes k' k" by (simp add: precedes_def)
    with hd have "\<forall>x \<in> fst ` set (setProp ps k v). precedes k' x"
      by (simp add: fst_set_setProp)
    moreover have "sorted_wrt precedes (map fst (setProp ps k v))"
      using none tl by (rule Cons.IH)
    ultimately show ?thesis using False ne p by simp
  qed
qed

lemma precedes_setProp:
  assumes "sorted_wrt precedes (map fst ob)"
  shows "sorted_wrt precedes (map fst (setProp ob k v))"
proof (cases "getProp ob k = None")
  case False
  with assms show ?thesis by (simp add: setProp_existing_keys)
next
  case True
  show ?thesis
  proof (cases "isArrayIndex k")
    case True
    then show ?thesis using \<open>getProp ob k = None\<close> assms by (rule precedes_setProp_index)
  next
    case False
    with True assms show ?thesis
      by (simp add: setProp_new_other sorted_wrt_append precedes_def)
  qed
qed

lemma JSON_parse_snoc: "JSON_parse (ms @ [(k, v)]) = setProp (JSON_parse ms) k v"
  by (simp add: JSON_parse_def)

lemma JSON_parse_keys: "fst ` set (JSON_parse ms) = fst ` set ms"
proof (induction ms rule: rev_induct)
  case Nil
  show ?case by (simp add: JSON_parse_def)
next
  case (snoc m ms)
  then show ?case by (cases m) (simp add: JSON_parse_snoc fst_set_setProp)
qed

lemma JSON_parse_distinct: "distinct (Object_keys (JSON_parse ms))"
proof (induction ms rule: rev_induct)
  case Nil
  show ?case by (simp add: JSON_parse_def Object_keys_def)
next
  case (snoc m ms)
  then show ?case by (cases m) (simp add: JSON_parse_snoc distinct_setProp)
qed

lemma JSON_parse_precedes: "sorted_wrt precedes (Object_keys (JSON_parse ms))"
proof (induction ms rule: rev_induct)
  case Nil
  show ?case by (simp add: JSON_parse_def Object_keys_def)
next
  case (snoc m ms)
  then show ?case
    by (cases m) (simp add: JSON_parse_snoc Object_keys_def precedes_setProp)
qed

lemma JSON_parse_set: "distinct (map fst ms) \<Longrightarrow> set (JSON_parse ms) = set ms"
proof (induction ms rule: rev_induct)
  case Nil
  show ?case by (simp add: JSON_parse_def)
next
  case (snoc m ms)
  obtain k v where m: "m = (k, v)" by (cases m)
  from snoc.prems m have "k \<notin> fst ` set ms" and "distinct (map fst ms)" by auto
  with snoc.IH have "getProp (JSON_parse ms) k = None" and "set (JSON_parse ms) = set ms"
    by (simp_all add: getProp_None_iff JSON_parse_keys)
  with m show ?case by (simp add: JSON_parse_snoc setProp_new_set)
qed

lemma JSON_parse_others:
  "distinct (map fst ms) \<Longrightarrow>
     filter (\<lambda>(n, r). \<not> isArrayIndex n) (JSON_parse ms) = filter (\<lambda>(n, r). \<not> isArrayIndex n) ms"
proof (induction ms rule: rev_induct)
  case Nil
  show ?case by (simp add: JSON_parse_def)
next
  case (snoc m ms)
  obtain k v where m: "m = (k, v)" by (cases m)
  from snoc.prems m have nk: "k \<notin> fst ` set ms" and d: "distinct (map fst ms)" by auto
  from nk have none: "getProp (JSON_parse ms) k = None"
    by (simp add: getProp_None_iff JSON_parse_keys)
  show ?case
  proof (cases "isArrayIndex k")
    case True
    with snoc.IH[OF d] m show ?thesis by (simp add: JSON_parse_snoc setProp_index_others)
  next
    case False
    with snoc.IH[OF d] m none show ?thesis by (simp add: JSON_parse_snoc setProp_new_other)
  qed
qed

lemma JSON_parse_insertion_order:
  assumes "distinct (map fst ms)" and "list_all (\<lambda>(n, r). \<not> isArrayIndex n) ms"
  shows "JSON_parse ms = ms"
proof -
  from assms(2) have "\<forall>x \<in> set ms. (\<lambda>(n, r). \<not> isArrayIndex n) x" by (simp add: list_all_iff)
  moreover from this JSON_parse_set[OF assms(1)]
  have "\<forall>x \<in> set (JSON_parse ms). (\<lambda>(n, r). \<not> isArrayIndex n) x" by simp
  ultimately have "filter (\<lambda>(n, r). \<not> isArrayIndex n) ms = ms"
    and "filter (\<lambda>(n, r). \<not> isArrayIndex n) (JSON_parse ms) = JSON_parse ms"
    by (simp_all only: filter_True)
  with JSON_parse_others[OF assms(1)] show ?thesis by simp
qed


subsection \<open>The leads the script calls\<close>

lemma truthyProp_empty: "k \<notin> set prototypeNames \<Longrightarrow> \<not> truthyProp [] k"
  by (simp add: truthyProp_def getProp_def)

lemma messagedIn_markMessaged_other:
  assumes "k \<noteq> n" and "k \<notin> set prototypeNames" and "messagedIn (markMessaged m c n) k"
  shows "messagedIn m k"
proof -
  define day where "day = (case getProp m (today c) of None \<Rightarrow> [] | Some d \<Rightarrow> d)"
  define names where "names = (case getProp day (currentHourKey c) of None \<Rightarrow> [] | Some ns \<Rightarrow> ns)"
  define day' where "day' = setProp day (currentHourKey c) (assignTrue names n)"
  have mm: "markMessaged m c n = setProp m (today c) day'"
    by (simp add: markMessaged_def Let_def day_def names_def day'_def)
  have in_day: "messagedIn m k" if "(h, ns) \<in> set day" and "truthyProp ns k" for h ns
  proof (cases "getProp m (today c)")
    case None
    with that show ?thesis by (simp add: day_def)
  next
    case (Some d)
    then have "(today c, d) \<in> set m" by (rule getProp_in_set)
    moreover from Some that have "(h, ns) \<in> set d" by (simp add: day_def)
    ultimately show ?thesis using that(2) by (force simp: messagedIn_def list_ex_iff)
  qed
  from assms(3) obtain d0 hours0 h0 ns0 where
    d0: "(d0, hours0) \<in> set (setProp m (today c) day')" and
    h0: "(h0, ns0) \<in> set hours0" and t: "truthyProp ns0 k"
    by (auto simp: messagedIn_def list_ex_iff mm)
  from d0 set_setProp[of m "today c" day'] have "(d0, hours0) = (today c, day') \<or> (d0, hours0) \<in> set m"
    by auto
  then show ?thesis
  proof
    assume "(d0, hours0) \<in> set m"
    with h0 t show ?thesis by (force simp: messagedIn_def list_ex_iff)
  next
    assume "(d0, hours0) = (today c, day')"
    with h0 have "(h0, ns0) \<in> set (setProp day (currentHourKey c) (assignTrue names n))"
      by (simp add: day'_def)
    with set_setProp[of day "currentHourKey c" "assignTrue names n"]
    have "(h0, ns0) = (currentHourKey c, assignTrue names n) \<or> (h0, ns0) \<in> set day" by auto
    then show ?thesis
    proof
      assume "(h0, ns0) \<in> set day"
      then show ?thesis using t by (rule in_day)
    next
      assume "(h0, ns0) = (currentHourKey c, assignTrue names n)"
      with t assms(1) have tn: "truthyProp names k" by (simp add: truthyProp_assignTrue_other)
      show ?thesis
      proof (cases "getProp day (currentHourKey c)")
        case None
        with tn assms(2) show ?thesis by (simp add: names_def truthyProp_empty)
      next
        case (Some ns)
        then have "(currentHourKey c, ns) \<in> set day" by (rule getProp_in_set)
        moreover from Some tn have "truthyProp ns k" by (simp add: names_def)
        ultimately show ?thesis by (rule in_day)
      qed
    qed
  qed
qed

lemma save_cli_other_messaged:
  assumes "k \<noteq> n" and "k \<notin> set prototypeNames"
  shows "isRestaurantMessaged_cli (saveMessagedRestaurant_cli f c ok n) k
           = isRestaurantMessaged_cli f k"
proof (cases f)
  case Missing
  from messagedIn_markMessaged_other[OF assms, of "[]" c] have "\<not> messagedIn (markMessaged [] c n) k"
    by (auto simp: messagedIn_empty)
  with Missing show ?thesis
    by (simp add: saveMessagedRestaurant_cli_def isRestaurantMessaged_cli_def)
next
  case Corrupt
  then show ?thesis by (simp add: saveMessagedRestaurant_cli_def)
next
  case (Parsed m)
  from messagedIn_markMessaged_other[OF assms, of m c] messagedIn_markMessaged_mono[of m k c n]
  have "messagedIn (markMessaged m c n) k = messagedIn m k" by blast
  with Parsed show ?thesis
    by (simp add: saveMessagedRestaurant_cli_def isRestaurantMessaged_cli_def)
qed

lemma remdups_adj_repeat:
  "xs \<noteq> [] \<Longrightarrow> \<forall>x \<in> set xs. x = n \<Longrightarrow> n \<notin> set ys \<Longrightarrow>
     remdups_adj (xs @ ys) = n # remdups_adj ys"
proof (induction xs)
  case Nil
  then show ?case by simp
next
  case (Cons x xs)
  then have x: "x = n" by simp
  show ?case
  proof (cases xs)
    case Nil
    with x Cons.prems(3) show ?thesis by (cases ys) auto
  next
    case (Cons x' xs')
    with Cons.prems have x': "x' = n" by simp
    have "remdups_adj (xs @ ys) = n # remdups_adj ys"
      using Cons Cons.prems by (intro Cons.IH) simp_all
    with Cons x x' show ?thesis by simp
  qed
qed


lemma messageable_after_save:
  assumes "\<forall>x \<in> set rest. fst x \<noteq> n \<and> fst x \<notin> set prototypeNames"
  shows "filter (messageable (saveMessagedRestaurant_cli f c ok n)) rest
           = filter (messageable f) rest"
  by (rule filter_cong)
     (use assms in \<open>auto simp: messageable_def eligible_def save_cli_other_messaged\<close>)

lemma selects_step:
  assumes a: "attempts w2 = attempts w @ a" "a \<noteq> []" "\<forall>ev \<in> set a. attemptedName ev = n"
      and n: "n \<notin> set S"
      and IH: "\<exists>new. attempts w3 = attempts w2 @ new
                 \<and> prefix (remdups_adj (map attemptedName new)) S
                 \<and> (C2 \<longrightarrow> remdups_adj (map attemptedName new) = S)"
      and cap: "C \<Longrightarrow> C2"
  shows "\<exists>new. attempts w3 = attempts w @ new
           \<and> prefix (remdups_adj (map attemptedName new)) (n # S)
           \<and> (C \<longrightarrow> remdups_adj (map attemptedName new) = n # S)"
proof -
  from IH obtain new where new: "attempts w3 = attempts w2 @ new"
    and pre: "prefix (remdups_adj (map attemptedName new)) S"
    and ex: "C2 \<longrightarrow> remdups_adj (map attemptedName new) = S"
    by blast
  from pre have "set (remdups_adj (map attemptedName new)) \<subseteq> set S" by (rule set_mono_prefix)
  with n have nn: "n \<notin> set (map attemptedName new)" by auto
  have rd: "remdups_adj (map attemptedName (a @ new)) = n # remdups_adj (map attemptedName new)"
    unfolding map_append
  proof (rule remdups_adj_repeat)
    show "map attemptedName a \<noteq> []" using a(2) by simp
    show "\<forall>x \<in> set (map attemptedName a). x = n" using a(3) by simp
    show "n \<notin> set (map attemptedName new)" by (rule nn)
  qed
  have "attempts w3 = attempts w @ (a @ new)" using new a(1) by simp
  moreover have "prefix (remdups_adj (map attemptedName (a @ new))) (n # S)"
    unfolding rd using pre by simp
  moreover have "C \<longrightarrow> remdups_adj (map attemptedName (a @ new)) = n # S"
    unfolding rd using ex cap by auto
  ultimately show ?thesis by blast
qed

lemma restaurantLoop_selects:
  "distinct (map fst leads) \<Longrightarrow> \<forall>x \<in> set leads. fst x \<notin> set prototypeNames \<Longrightarrow>
     \<exists>new. attempts (snd (restaurantLoop e bl leads cnt w)) = attempts w @ new
       \<and> prefix (remdups_adj (map attemptedName new))
                (map fst (filter (messageable (historyFile w)) leads))
       \<and> (snd cnt + length (filter (messageable (historyFile w)) leads) \<le> 25
            \<and> fst cnt + length (filter (messageable (historyFile w)) leads) \<le> bl
          \<longrightarrow> remdups_adj (map attemptedName new)
                = map fst (filter (messageable (historyFile w)) leads))"
proof (induction e bl leads cnt w rule: restaurantLoop.induct)
  case (1 e bl dm hc w)
  then show ?case by simp
next
  case (2 e bl n r rest dm hc w)
  from "2.prems" have dr: "distinct (map fst rest)"
    and pr: "\<forall>x \<in> set rest. fst x \<notin> set prototypeNames"
    and nr: "\<forall>x \<in> set rest. fst x \<noteq> n" by auto
  let ?f = "historyFile w"
  let ?S = "map fst (filter (messageable ?f) rest)"
  have nS: "n \<notin> set ?S" using nr by auto
  show ?case
  proof (cases "hc \<ge> 25 \<or> dm \<ge> bl")
    case True
    then have stop: "restaurantLoop e bl ((n, r) # rest) (dm, hc) w = ((dm, hc), w)" by auto
    define L where "L = filter (messageable ?f) ((n, r) # rest)"
    have "L = []" if "hc + length L \<le> 25 \<and> dm + length L \<le> bl"
    proof -
      from that True have "length L = 0" by linarith
      then show ?thesis by simp
    qed
    then have "snd (dm, hc) + length L \<le> 25 \<and> fst (dm, hc) + length L \<le> bl
                 \<longrightarrow> remdups_adj (map attemptedName []) = map fst L"
      by simp
    moreover have "attempts (snd (restaurantLoop e bl ((n, r) # rest) (dm, hc) w)) = attempts w @ []"
      by (simp only: stop snd_conv append_Nil2)
    moreover have "prefix (remdups_adj (map attemptedName [])) (map fst L)" by simp
    ultimately show ?thesis unfolding L_def by blast
  next
    case lim: False
    show ?thesis
    proof (cases "messageable ?f (n, r)")
      case False
      then have step: "restaurantLoop e bl ((n, r) # rest) (dm, hc) w
                       = restaurantLoop e bl rest (dm, hc) w"
        using lim by (auto simp: messageable_def eligible_def)
      have "\<exists>new. attempts (snd (restaurantLoop e bl rest (dm, hc) w)) = attempts w @ new
              \<and> prefix (remdups_adj (map attemptedName new)) ?S
              \<and> (snd (dm, hc) + length (filter (messageable ?f) rest) \<le> 25
                   \<and> fst (dm, hc) + length (filter (messageable ?f) rest) \<le> bl
                 \<longrightarrow> remdups_adj (map attemptedName new) = ?S)"
      proof (cases "\<not> hasInstagram r")
        case True
        show ?thesis by (rule "2.IH"(1)) (use lim True dr pr in auto)
      next
        case hi: False
        show ?thesis
        proof (cases "isRestaurantMessaged_cli ?f n")
          case True
          show ?thesis by (rule "2.IH"(2)) (use lim hi True dr pr in auto)
        next
          case nm: False
          with hi False have "extractInstagramUsername_cli (instagramUrl r) = None"
            by (simp add: messageable_def eligible_def)
          then show ?thesis by (intro "2.IH"(3)) (use lim hi nm dr pr in auto)
        qed
      qed
      with step False show ?thesis by simp
    next
      case True
      then have hi: "hasInstagram r" and nm: "\<not> isRestaurantMessaged_cli ?f n"
        and ex: "extractInstagramUsername_cli (instagramUrl r) \<noteq> None"
        by (simp_all add: messageable_def eligible_def)
      from ex obtain u where u: "extractInstagramUsername_cli (instagramUrl r) = Some u" by auto
      obtain s k w' where rl: "retryLoop e n u (generateMessage (name r)) (False, 0) w = ((s, k), w')"
        by (cases "retryLoop e n u (generateMessage (name r)) (False, 0) w") auto
      from retryLoop_attempts[OF rl] obtain a where
        a: "attempts w' = attempts w @ a" "a \<noteq> []" "\<forall>ev \<in> set a. attemptedName ev = n"
        by blast
      from retryLoop_frame[OF rl] have f': "historyFile w' = historyFile w" by simp
      have sel: "filter (messageable ?f) ((n, r) # rest) = (n, r) # filter (messageable ?f) rest"
        using True by simp
      show ?thesis
      proof (cases s)
        case True
        define w2 where "w2 = w'\<lparr>historyFile := saveMessagedRestaurant_cli (historyFile w')
                       (clockAt e (sendCalls w')) (writeOk e (sendCalls w')) n\<rparr>"
        have step: "restaurantLoop e bl ((n, r) # rest) (dm, hc) w
                      = restaurantLoop e bl rest (dm + 1, hc + 1) w2"
          using lim hi nm u rl True by (simp add: w2_def)
        have same: "filter (messageable (historyFile w2)) rest = filter (messageable ?f) rest"
          unfolding w2_def using nr pr by (simp add: f' messageable_after_save)
        have "\<exists>new. attempts (snd (restaurantLoop e bl rest (dm + 1, hc + 1) w2))
                      = attempts w2 @ new
                \<and> prefix (remdups_adj (map attemptedName new))
                     (map fst (filter (messageable (historyFile w2)) rest))
                \<and> (snd (dm + 1, hc + 1) + length (filter (messageable (historyFile w2)) rest) \<le> 25
                     \<and> fst (dm + 1, hc + 1) + length (filter (messageable (historyFile w2)) rest) \<le> bl
                   \<longrightarrow> remdups_adj (map attemptedName new)
                         = map fst (filter (messageable (historyFile w2)) rest))"
          unfolding w2_def by (rule "2.IH"(4)) (use lim hi nm u rl True dr pr in auto)
        then have IH: "\<exists>new. attempts (snd (restaurantLoop e bl rest (dm + 1, hc + 1) w2))
                      = attempts w2 @ new
                \<and> prefix (remdups_adj (map attemptedName new)) ?S
                \<and> (hc + 1 + length (filter (messageable ?f) rest) \<le> 25
                     \<and> dm + 1 + length (filter (messageable ?f) rest) \<le> bl
                   \<longrightarrow> remdups_adj (map attemptedName new) = ?S)"
          by (simp add: same)
        have a2: "attempts w2 = attempts w @ a" using a(1) by (simp add: w2_def)
        have cap: "hc + 1 + length (filter (messageable ?f) rest) \<le> 25
                     \<and> dm + 1 + length (filter (messageable ?f) rest) \<le> bl"
          if "snd (dm, hc) + length ((n, r) # filter (messageable ?f) rest) \<le> 25
                \<and> fst (dm, hc) + length ((n, r) # filter (messageable ?f) rest) \<le> bl"
          using that by simp
        from selects_step[OF a2 a(2,3) nS IH cap]
        show ?thesis unfolding step sel by simp
      next
        case False
        have step: "restaurantLoop e bl ((n, r) # rest) (dm, hc) w
                      = restaurantLoop e bl rest (dm, hc) w'"
          using lim hi nm u rl False by simp
        have "\<exists>new. attempts (snd (restaurantLoop e bl rest (dm, hc) w')) = attempts w' @ new
                \<and> prefix (remdups_adj (map attemptedName new))
                     (map fst (filter (messageable (historyFile w')) rest))
                \<and> (snd (dm, hc) + length (filter (messageable (historyFile w')) rest) \<le> 25
                     \<and> fst (dm, hc) + length (filter (messageable (historyFile w')) rest) \<le> bl
                   \<longrightarrow> remdups_adj (map attemptedName new)
                         = map fst (filter (messageable (historyFile w')) rest))"
          by (rule "2.IH"(5)) (use lim hi nm u rl False dr pr in auto)
        then have IH: "\<exists>new. attempts (snd (restaurantLoop e bl rest (dm, hc) w')) = attempts w' @ new
                \<and> prefix (remdups_adj (map attemptedName new)) ?S
                \<and> (hc + length (filter (messageable ?f) rest) \<le> 25
                     \<and> dm + length (filter (messageable ?f) rest) \<le> bl
                   \<longrightarrow> remdups_adj (map attemptedName new) = ?S)"
          by (simp add: f')
        have cap: "hc + length (filter (messageable ?f) rest) \<le> 25
                     \<and> dm + length (filter (messageable ?f) rest) \<le> bl"
          if "snd (dm, hc) + length ((n, r) # filter (messageable ?f) rest) \<le> 25
                \<and> fst (dm, hc) + length ((n, r) # filter (messageable ?f) rest) \<le> bl"
          using that by simp
        from selects_step[OF a(1) a(2,3) nS IH cap]
        show ?thesis unfolding step sel by simp
      qed
    qed
  qed
qed


lemma truthyProp_own:
  "n \<notin> set prototypeNames \<Longrightarrow> truthyProp names n \<longleftrightarrow> getProp names n = Some True"
  by (cases "getProp names n") (simp_all add: truthyProp_def)

lemma messagedIn_recordedIn:
  "n \<notin> set prototypeNames \<Longrightarrow> messagedIn m n \<longleftrightarrow> 0 < recordedIn m n"
  by (simp add: messagedIn_def recordedIn_def weight_pos_iff holds_pos_iff truthyProp_own)

lemma messaged_recordings:
  "n \<notin> set prototypeNames \<Longrightarrow> isRestaurantMessaged_cli f n \<longleftrightarrow> 0 < recordings f n"
  by (cases f) (simp_all add: isRestaurantMessaged_cli_def recordings_def messagedIn_recordedIn)

text \<open>
  Claim C8 says that the candidates are the leads that have a non-null profile handle and
  are not in the send history, in the insertion order of the source collection. Both files
  walk \<^verbatim>\<open>Object.entries\<close> of the parsed lead object, which puts a name that is an array
  index before every other name: of the members Zed, 1618, in this order in the file, 1618
  is selected and messaged first. And both files test the link for truthiness: a lead
  whose link is the empty string has a non-null handle and is not selected.
\<close>

theorem insertion_order_counterexample:
  "restaurantsToMessage Missing (JSON_parse leadsZed1618)
     = Inr [(''1618'', ''https://www.instagram.com/bar1618/''),
            (''Zed'', ''https://www.instagram.com/zed/'')]
   \<and> map attemptedName
       (attempts (snd (main calm [(''austin'', JSON_parse leadsZed1618)] (start Missing))))
       = [''1618'', ''Zed'']
   \<and> map fst leadsZed1618 = [''Zed'', ''1618'']
   \<and> instagram (snd (emptyLink ''E'')) \<noteq> None
   \<and> restaurantsToMessage Missing (JSON_parse [emptyLink ''E'']) = Inr []
   \<and> attempts (snd (main calm [(''austin'', JSON_parse [emptyLink ''E''])] (start Missing))) = []"
  by code_simp


text \<open>
  Claim C8 as amended. Selection keeps the order in which the parsed lead object is
  enumerated: the names that are array indices first, in ascending numeric order, then
  the other names in the order of the file (so a collection without array-index names is
  walked in insertion order). The \<^verbatim>\<open>restaurantsToMessage\<close> of the step is exactly the leads,
  in that order, whose link is truthy (neither missing nor empty) and for which
  \<^verbatim>\<open>isRestaurantMessaged\<close> is false; for names that no object inherits these are the leads
  with a truthy link that no bucket of the history holds. The script makes the same test
  when its loop reaches a lead: if no lead is named like an inherited property, the
  restaurants for which it calls \<^verbatim>\<open>sendMessage\<close> (repeated calls for one restaurant counted
  once) are, in that order, the first of the leads that pass the test and have a link with
  a username, and all of them when the hourly and the batch limit leave room for them.
\<close>

theorem selection_keeps_order:
  "(f \<noteq> Corrupt \<longrightarrow>
      restaurantsToMessage f (JSON_parse members)
        = Inr (map (\<lambda>(n, r). (n, instagramUrl r)) (filter (eligible f) (JSON_parse members))))
   \<and> (f \<noteq> Corrupt \<and> list_all (\<lambda>(n, r). n \<notin> set prototypeNames) members \<longrightarrow>
      restaurantsToMessage f (JSON_parse members)
        = Inr (map (\<lambda>(n, r). (n, instagramUrl r))
                (filter (\<lambda>(n, r). hasInstagram r \<and> recordings f n = 0) (JSON_parse members))))
   \<and> (\<forall>n r. n \<notin> set prototypeNames \<longrightarrow>
          eligible f (n, r) = (hasInstagram r \<and> recordings f n = 0))
   \<and> sorted_wrt precedes (Object_keys (JSON_parse members))
   \<and> (distinct (map fst members) \<longrightarrow>
        set (JSON_parse members) = set members
        \<and> filter (\<lambda>(n, r). \<not> isArrayIndex n) (JSON_parse members)
            = filter (\<lambda>(n, r). \<not> isArrayIndex n) members
        \<and> (list_all (\<lambda>(n, r). \<not> isArrayIndex n) members \<longrightarrow> JSON_parse members = members))
   \<and> (list_all (\<lambda>(n, r). n \<notin> set prototypeNames) members \<longrightarrow>
        prefix (remdups_adj (map attemptedName (drop (length (attempts w))
                  (attempts (snd (restaurantLoop e batchLimit (JSON_parse members) cnt w))))))
               (map fst (filter (messageable (historyFile w)) (JSON_parse members)))
        \<and> (snd cnt + length (filter (messageable (historyFile w)) (JSON_parse members)) \<le> 25
             \<and> fst cnt + length (filter (messageable (historyFile w)) (JSON_parse members))
                 \<le> batchLimit \<longrightarrow>
             remdups_adj (map attemptedName (drop (length (attempts w))
                  (attempts (snd (restaurantLoop e batchLimit (JSON_parse members) cnt w)))))
               = map fst (filter (messageable (historyFile w)) (JSON_parse members))))"
proof -
  have one: "restaurantsToMessage f (JSON_parse members)
        = Inr (map (\<lambda>(n, r). (n, instagramUrl r)) (filter (eligible f) (JSON_parse members)))"
    if "f \<noteq> Corrupt"
    using restaurantsToMessage_filter[OF that, of "JSON_parse members"]
    by (simp add: eligible_def)
  have two: "eligible f (n, r) = (hasInstagram r \<and> recordings f n = 0)"
    if "n \<notin> set prototypeNames" for n r
    using that by (auto simp: eligible_def messaged_recordings)
  have own: "restaurantsToMessage f (JSON_parse members)
        = Inr (map (\<lambda>(n, r). (n, instagramUrl r))
                (filter (\<lambda>(n, r). hasInstagram r \<and> recordings f n = 0) (JSON_parse members)))"
    if c: "f \<noteq> Corrupt" and p: "list_all (\<lambda>(n, r). n \<notin> set prototypeNames) members"
  proof -
    from p have "\<forall>n \<in> fst ` set members. n \<notin> set prototypeNames"
      by (auto simp: list_all_iff)
    then have "\<forall>n \<in> fst ` set (JSON_parse members). n \<notin> set prototypeNames"
      by (simp only: JSON_parse_keys)
    then have "\<forall>x \<in> set (JSON_parse members). fst x \<notin> set prototypeNames" by auto
    then have "filter (eligible f) (JSON_parse members)
                 = filter (\<lambda>(n, r). hasInstagram r \<and> recordings f n = 0) (JSON_parse members)"
      by (intro filter_cong) (auto simp: two)
    with one[OF c] show ?thesis by simp
  qed
  have three: "sorted_wrt precedes (Object_keys (JSON_parse members))"
    by (rule JSON_parse_precedes)
  have four: "set (JSON_parse members) = set members
        \<and> filter (\<lambda>(n, r). \<not> isArrayIndex n) (JSON_parse members)
            = filter (\<lambda>(n, r). \<not> isArrayIndex n) members
        \<and> (list_all (\<lambda>(n, r). \<not> isArrayIndex n) members \<longrightarrow> JSON_parse members = members)"
    if "distinct (map fst members)"
    using that by (simp add: JSON_parse_set JSON_parse_others JSON_parse_insertion_order)
  have five: "prefix (remdups_adj (map attemptedName (drop (length (attempts w))
                  (attempts (snd (restaurantLoop e batchLimit (JSON_parse members) cnt w))))))
               (map fst (filter (messageable (historyFile w)) (JSON_parse members)))
        \<and> (snd cnt + length (filter (messageable (historyFile w)) (JSON_parse members)) \<le> 25
             \<and> fst cnt + length (filter (messageable (historyFile w)) (JSON_parse members))
                 \<le> batchLimit \<longrightarrow>
             remdups_adj (map attemptedName (drop (length (attempts w))
                  (attempts (snd (restaurantLoop e batchLimit (JSON_parse members) cnt w)))))
               = map fst (filter (messageable (historyFile w)) (JSON_parse members)))"
    if p: "list_all (\<lambda>(n, r). n \<notin> set prototypeNames) members"
  proof -
    have d: "distinct (map fst (JSON_parse members))"
      using JSON_parse_distinct[of members] by (simp add: Object_keys_def)
    from p have "\<forall>n \<in> fst ` set members. n \<notin> set prototypeNames"
      by (auto simp: list_all_iff)
    then have "\<forall>n \<in> fst ` set (JSON_parse members). n \<notin> set prototypeNames"
      by (simp only: JSON_parse_keys)
    then have q: "\<forall>x \<in> set (JSON_parse members). fst x \<notin> set prototypeNames" by auto
    from restaurantLoop_selects[OF d q, of e batchLimit cnt w] obtain new where
      "attempts (snd (restaurantLoop e batchLimit (JSON_parse members) cnt w)) = attempts w @ new"
      and "prefix (remdups_adj (map attemptedName new))
                (map fst (filter (messageable (historyFile w)) (JSON_parse members)))"
      and "snd cnt + length (filter (messageable (historyFile w)) (JSON_parse members)) \<le> 25
            \<and> fst cnt + length (filter (messageable (historyFile w)) (JSON_parse members))
                \<le> batchLimit
          \<longrightarrow> remdups_adj (map attemptedName new)
                = map fst (filter (messageable (historyFile w)) (JSON_parse members))"
      by blast
    then show ?thesis by simp
  qed
  from one own two three four five show ?thesis by blast
qed


theorem selection_keeps_order_witness:
  "afterB \<noteq> Corrupt
   \<and> distinct (map fst leadsMixed)
   \<and> list_all (\<lambda>(n, r). n \<notin> set prototypeNames) leadsMixed
   \<and> map fst leadsMixed = [''Zed'', ''B'', ''1618'', ''E'', ''7'']
   \<and> map fst (JSON_parse leadsMixed) = [''7'', ''1618'', ''Zed'', ''B'', ''E'']
   \<and> restaurantsToMessage afterB (JSON_parse leadsMixed)
       = Inr [(''7'', ''https://www.instagram.com/seven/''),
              (''1618'', ''https://www.instagram.com/bar1618/''),
              (''Zed'', ''https://www.instagram.com/zed/'')]
   \<and> remdups_adj (map attemptedName
         (attempts (snd (restaurantLoop calm 25 (JSON_parse leadsMixed) (0, 0) (start afterB)))))
       = [''7'', ''1618'', ''Zed'']
   \<and> distinct (map fst leadsABC)
   \<and> list_all (\<lambda>(n, r). \<not> isArrayIndex n) leadsABC
   \<and> list_all (\<lambda>(n, r). n \<notin> set prototypeNames) leadsABC
   \<and> JSON_parse leadsABC = leadsABC
   \<and> restaurantsToMessage afterB (JSON_parse leadsABC)
       = Inr [(''A'', ''https://www.instagram.com/a/''), (''C'', ''https://www.instagram.com/c/'')]
   \<and> remdups_adj (map attemptedName
         (attempts (snd (restaurantLoop calm 25 (JSON_parse leadsABC) (0, 0) (start afterB)))))
       = [''A'', ''C'']"
proof -
  have h1: "afterB \<noteq> Corrupt" by (simp add: afterB_def saveMessagedRestaurant_cli_def)
  have h2: "distinct (map fst leadsMixed)" by code_simp
  have h3: "list_all (\<lambda>(n, r). n \<notin> set prototypeNames) leadsMixed" by code_simp
  have h4: "map fst leadsMixed = [''Zed'', ''B'', ''1618'', ''E'', ''7'']" by code_simp
  have h5: "map fst (JSON_parse leadsMixed) = [''7'', ''1618'', ''Zed'', ''B'', ''E'']" by code_simp
  have e1: "map (\<lambda>(n, r). (n, instagramUrl r)) (filter (eligible afterB) (JSON_parse leadsMixed))
       = [(''7'', ''https://www.instagram.com/seven/''),
          (''1618'', ''https://www.instagram.com/bar1618/''),
          (''Zed'', ''https://www.instagram.com/zed/'')]"
    by code_simp
  have e2: "map fst (filter (messageable (historyFile (start afterB))) (JSON_parse leadsMixed))
       = [''7'', ''1618'', ''Zed'']"
    by code_simp
  have e3: "length (filter (messageable (historyFile (start afterB))) (JSON_parse leadsMixed)) = 3"
    by code_simp
  have a0: "attempts (start afterB) = []" by (simp add: start_def)
  have g2: "distinct (map fst leadsABC)" by code_simp
  have g3: "list_all (\<lambda>(n, r). \<not> isArrayIndex n) leadsABC" by code_simp
  have g4: "list_all (\<lambda>(n, r). n \<notin> set prototypeNames) leadsABC" by code_simp
  have k1: "map (\<lambda>(n, r). (n, instagramUrl r)) (filter (eligible afterB) leadsABC)
       = [(''A'', ''https://www.instagram.com/a/''), (''C'', ''https://www.instagram.com/c/'')]"
    by code_simp
  have k2: "map fst (filter (messageable (historyFile (start afterB))) leadsABC) = [''A'', ''C'']"
    by code_simp
  have k3: "length (filter (messageable (historyFile (start afterB))) leadsABC) = 2"
    by code_simp
  note m = selection_keeps_order[of afterB leadsMixed "start afterB" calm 25 "(0, 0)"]
  note abc = selection_keeps_order[of afterB leadsABC "start afterB" calm 25 "(0, 0)"]
  from abc g2 g3 have p0: "JSON_parse leadsABC = leadsABC" by blast
  from m h1 e1 have m1: "restaurantsToMessage afterB (JSON_parse leadsMixed)
       = Inr [(''7'', ''https://www.instagram.com/seven/''),
              (''1618'', ''https://www.instagram.com/bar1618/''),
              (''Zed'', ''https://www.instagram.com/zed/'')]"
    by simp
  from m h3 e2 e3 a0 have m2: "remdups_adj (map attemptedName
         (attempts (snd (restaurantLoop calm 25 (JSON_parse leadsMixed) (0, 0) (start afterB)))))
       = [''7'', ''1618'', ''Zed'']"
    by simp
  from abc h1 k1 p0 have p1: "restaurantsToMessage afterB (JSON_parse leadsABC)
       = Inr [(''A'', ''https://www.instagram.com/a/''), (''C'', ''https://www.instagram.com/c/'')]"
    by simp
  from abc g4 k2 k3 a0 p0 have p2: "remdups_adj (map attemptedName
         (attempts (snd (restaurantLoop calm 25 (JSON_parse leadsABC) (0, 0) (start afterB)))))
       = [''A'', ''C'']"
    by simp
  from h1 h2 h3 h4 h5 m1 m2 g2 g3 g4 p0 p1 p2 show ?thesis by (intro conjI)
qed

section \<open>One candidate of a run\<close>

lemma sendLoop_failed:
  assumes "hc < 25" and "extractInstagramUsername_step url = Some u"
      and "\<not> delivers e (sendCalls w)"
  shows "sendLoop e ((n, url) # rest) (sc, hc) w =
           sendLoop e rest (sc, hc)
             (w\<lparr>sendCalls := sendCalls w + 1,
                attempts := attempts w @ [Attempt n u (generateMessage n) False]\<rparr>)"
  using assms by (simp add: sendMessage_step_def)

lemma sendLoop_recorded:
  assumes "hc < 25" and "extractInstagramUsername_step url = Some u"
      and "delivers e (sendCalls w)"
      and "saveMessagedRestaurant_step (historyFile w) (clockAt e (sendCalls w + 1))
             (writeOk e (sendCalls w + 1)) n = Inr f'"
  shows "sendLoop e ((n, url) # rest) (sc, hc) w =
           sendLoop e rest (sc + 1, hc + 1)
             (w\<lparr>sendCalls := sendCalls w + 1,
                attempts := attempts w @ [Attempt n u (generateMessage n) True],
                historyFile := f'\<rparr>)"
  using assms by (simp add: sendMessage_step_def)

lemma sendLoop_unrecorded:
  assumes "hc < 25" and "extractInstagramUsername_step url = Some u"
      and "delivers e (sendCalls w)"
      and "saveMessagedRestaurant_step (historyFile w) (clockAt e (sendCalls w + 1))
             (writeOk e (sendCalls w + 1)) n = Inl err"
  shows "sendLoop e ((n, url) # rest) (sc, hc) w =
           sendLoop e rest (sc, hc)
             (w\<lparr>sendCalls := sendCalls w + 1,
                attempts := attempts w @ [Attempt n u (generateMessage n) True]\<rparr>)"
  using assms by (simp add: sendMessage_step_def)

lemma retryLoop_calls:
  assumes "retryLoop e n u m (False, 0) w = ((s, k), w')"
  shows "historyFile w' = historyFile w \<and> sendCalls w < sendCalls w'
           \<and> sendCalls w' \<le> sendCalls w + 2"
proof -
  obtain s1 w1 where a1: "sendMessage_cli e n u m w = (s1, w1)"
    by (cases "sendMessage_cli e n u m w")
  obtain s2 w2 where a2: "sendMessage_cli e n u m w1 = (s2, w2)"
    by (cases "sendMessage_cli e n u m w1")
  note f1 = sendMessage_cli_frame[OF a1] and f2 = sendMessage_cli_frame[OF a2]
  show ?thesis
  proof (cases s1)
    case True
    with assms a1 have "w' = w1" by (simp add: retryLoop_unfold)
    with f1 show ?thesis by simp
  next
    case False
    with assms a1 a2 have "w' = w2" by (simp add: retryLoop_unfold)
    with f1 f2 show ?thesis by simp
  qed
qed

lemma sendMessage_cli_fails: "\<not> delivers e (sendCalls w) \<Longrightarrow> \<not> fst (sendMessage_cli e n u m w)"
  by (simp add: sendMessage_cli_def Let_def)

lemma retryLoop_all_fail:
  assumes "\<forall>k. \<not> delivers e k" and "retryLoop e n u m (False, 0) w = ((s, k), w')"
  shows "\<not> s"
proof -
  obtain s1 w1 where a1: "sendMessage_cli e n u m w = (s1, w1)"
    by (cases "sendMessage_cli e n u m w")
  obtain s2 w2 where a2: "sendMessage_cli e n u m w1 = (s2, w2)"
    by (cases "sendMessage_cli e n u m w1")
  from assms(1) sendMessage_cli_fails[of e w n u m] a1 have s1: "\<not> s1" by simp
  from assms(1) sendMessage_cli_fails[of e w1 n u m] a2 have s2: "\<not> s2" by simp
  from assms(2) a1 a2 s1 s2 show ?thesis by (simp add: retryLoop_unfold)
qed

lemma restaurantLoop_attempted:
  assumes "hc < 25" and "dm < bl" and "eligible (historyFile w) (n, r)"
      and "extractInstagramUsername_cli (instagramUrl r) = Some u"
      and "retryLoop e n u (generateMessage (name r)) (False, 0) w = ((s, k), w')"
  shows "restaurantLoop e bl ((n, r) # rest) (dm, hc) w =
           (if s then restaurantLoop e bl rest (dm + 1, hc + 1)
                        (w'\<lparr>historyFile := saveMessagedRestaurant_cli (historyFile w')
                               (clockAt e (sendCalls w')) (writeOk e (sendCalls w')) n\<rparr>)
            else restaurantLoop e bl rest (dm, hc) w')"
  using assms by (simp add: eligible_def)

lemma save_cli_unwritten:
  "\<not> ok \<or> f = Corrupt \<Longrightarrow> saveMessagedRestaurant_cli f c ok n = f"
  by (cases f) (auto simp: saveMessagedRestaurant_cli_def)

lemma handler_closes: "\<not> browserOpen (snd (handler e location allRestaurants w))"
  by (auto simp: handler_def close_def split: prod.splits sum.splits)

lemma main_completed_closes:
  "main e restaurantData w = (Completed, w') \<Longrightarrow> \<not> browserOpen w'"
  by (auto simp: main_def mainFrom_def Let_def close_def split: if_splits sum.splits)

section \<open>Quota across the locations of one run\<close>

text \<open>
  The handler of the step serves one location: at a clock that stands still, a run that
  starts within the limits ends within them (\<open>handler_within_limits\<close>).
\<close>

lemma countHours_hourly_distinct:
  "distinct (Object_keys day) \<Longrightarrow>
     fst (countHours day key (h, d)) = (case getProp day key of None \<Rightarrow> h | Some ns \<Rightarrow> length ns)"
proof (induction day key "(h, d)" arbitrary: h d rule: countHours.induct)
  case (1 key h d)
  then show ?case by (simp add: getProp_def)
next
  case (2 hour names rest key h d)
  from "2.prems" have dr: "distinct (Object_keys rest)" and nh: "hour \<notin> set (Object_keys rest)"
    by (simp_all add: Object_keys_def)
  show ?case
  proof (cases "hour = key")
    case True
    with nh have "getProp rest key = None"
      by (simp add: getProp_def Object_keys_def map_of_eq_None_iff)
    with True "2.hyps"[OF refl dr] show ?thesis
      by (simp add: Let_def getProp_def Object_keys_def)
  next
    case False
    with "2.hyps"[OF refl dr] show ?thesis
      by (simp add: Let_def getProp_def Object_keys_def)
  qed
qed

lemma weight_length: "snd (countHours day key (h, d)) = d + weight length day"
  by (simp add: countHours_daily weight_def)

lemma countsOf_markMessaged:
  assumes "list_all (\<lambda>(day, hours). distinct (Object_keys hours)) m"
  shows "hourly (countsOf (markMessaged m c n) c) \<le> hourly (countsOf m c) + 1
       \<and> daily (countsOf (markMessaged m c n) c) \<le> daily (countsOf m c) + 1
       \<and> list_all (\<lambda>(day, hours). distinct (Object_keys hours)) (markMessaged m c n)"
proof -
  define day where "day = (case getProp m (today c) of None \<Rightarrow> [] | Some d \<Rightarrow> d)"
  define names where "names = (case getProp day (currentHourKey c) of None \<Rightarrow> [] | Some ns \<Rightarrow> ns)"
  define names' where "names' = assignTrue names n"
  define day' where "day' = setProp day (currentHourKey c) names'"
  have mm: "markMessaged m c n = setProp m (today c) day'"
    by (simp add: markMessaged_def Let_def day_def names_def names'_def day'_def)
  have dd: "distinct (Object_keys day)"
    using assms unfolding day_def
    by (auto simp: list_all_iff Object_keys_def dest!: getProp_in_set split: option.splits)
  then have dd': "distinct (Object_keys day')" unfolding day'_def by (rule distinct_setProp)
  have g': "getProp (markMessaged m c n) (today c) = Some day'"
    by (simp add: mm getProp_setProp)
  have ln: "length names' \<le> length names + 1" unfolding names'_def by (rule length_assignTrue)
  have old: "countsOf m c = \<lparr>hourly = fst (countHours day (currentHourKey c) (0, 0)),
                             daily = snd (countHours day (currentHourKey c) (0, 0))\<rparr>"
    by (cases "getProp m (today c)") (simp_all add: countsOf_def day_def split: prod.splits)
  have new: "countsOf (markMessaged m c n) c
               = \<lparr>hourly = fst (countHours day' (currentHourKey c) (0, 0)),
                  daily = snd (countHours day' (currentHourKey c) (0, 0))\<rparr>"
    by (simp add: countsOf_def g' split: prod.splits)
  have h_old: "fst (countHours day (currentHourKey c) (0, 0)) = length names"
    using countHours_hourly_distinct[OF dd, of "currentHourKey c" 0 0]
    by (simp add: names_def split: option.splits)
  have h_new: "fst (countHours day' (currentHourKey c) (0, 0)) = length names'"
    using countHours_hourly_distinct[OF dd', of "currentHourKey c" 0 0]
    by (simp add: day'_def getProp_setProp)
  have oldn: "(case getProp day (currentHourKey c) of None \<Rightarrow> 0 | Some v0 \<Rightarrow> length v0)
                = length names"
    by (simp add: names_def split: option.splits)
  have "weight length day' + length names = weight length day + length names'"
    using weight_setProp[of length day "currentHourKey c" names'] oldn by (simp add: day'_def)
  with ln have d_le: "weight length day' \<le> weight length day + 1" by simp
  have wf: "list_all (\<lambda>(day, hours). distinct (Object_keys hours)) (markMessaged m c n)"
    unfolding mm list_all_iff
  proof
    fix x assume "x \<in> set (setProp m (today c) day')"
    with set_setProp[of m "today c" day'] have "x = (today c, day') \<or> x \<in> set m" by auto
    with dd' assms show "case x of (day, hours) \<Rightarrow> distinct (Object_keys hours)"
      by (auto simp: list_all_iff)
  qed
  from ln d_le wf show ?thesis
    by (simp add: old new h_old h_new weight_length)
qed


lemma countsOf_empty: "countsOf [] c = \<lparr>hourly = 0, daily = 0\<rparr>"
  by (simp add: countsOf_def getProp_def)

lemma save_cli_within:
  assumes "distinctHours f"
  shows "within f c 1 (saveMessagedRestaurant_cli f c ok n)"
proof (cases f)
  case Missing
  with countsOf_markMessaged[of "[]" c n] show ?thesis
    by (simp add: within_def saveMessagedRestaurant_cli_def getMessageCounts_cli_def
          distinctHours_def countsOf_empty)
next
  case Corrupt
  then show ?thesis
    by (simp add: within_def saveMessagedRestaurant_cli_def distinctHours_def)
next
  case (Parsed m)
  with assms countsOf_markMessaged[of m c n] show ?thesis
    by (simp add: within_def saveMessagedRestaurant_cli_def getMessageCounts_cli_def
          distinctHours_def)
qed

lemma within_refl: "distinctHours f \<Longrightarrow> within f c 0 f"
  by (simp add: within_def)

lemma within_trans: "within f c j f' \<Longrightarrow> within f' c k f'' \<Longrightarrow> within f c (j + k) f''"
  by (auto simp: within_def)

lemma within_mono: "within f c j f' \<Longrightarrow> j \<le> k \<Longrightarrow> within f c k f'"
  by (auto simp: within_def)

lemma sendLoop_within:
  "\<forall>k. clockAt e k = c \<Longrightarrow> distinctHours (historyFile w) \<Longrightarrow>
     within (historyFile w) c (length ms) (historyFile (snd (sendLoop e ms cnt w)))"
proof (induction e ms cnt w rule: sendLoop.induct)
  case (1 e sc hc w)
  then show ?case by (simp add: within_refl)
next
  case (2 e n url rest sc hc w)
  note ck = "2.prems"(1) and dh = "2.prems"(2)
  have stay: "within (historyFile w) c (length ((n, url) # rest)) (historyFile w)"
    using within_refl[OF dh, of c] by (rule within_mono) simp
  show ?case
  proof (cases "hc \<ge> 25")
    case True
    with stay show ?thesis by simp
  next
    case lim: False
    show ?thesis
    proof (cases "extractInstagramUsername_step url")
      case None
      have "within (historyFile w) c (length rest) (historyFile (snd (sendLoop e rest (sc, hc) w)))"
        by (rule "2.IH"(1)) (use lim None ck dh in auto)
      then have "within (historyFile w) c (length ((n, url) # rest))
                   (historyFile (snd (sendLoop e rest (sc, hc) w)))"
        by (rule within_mono) simp
      with lim None show ?thesis by simp
    next
      case (Some u)
      obtain s w' where sm: "sendMessage_step e n u (generateMessage n) w = (s, w')"
        by (cases "sendMessage_step e n u (generateMessage n) w")
      from sendMessage_step_frame[OF sm] have f': "historyFile w' = historyFile w" by simp
      show ?thesis
      proof (cases s)
        case False
        have "within (historyFile w') c (length rest)
                (historyFile (snd (sendLoop e rest (sc, hc) w')))"
          by (rule "2.IH"(4)) (use lim Some sm False ck dh f' in auto)
        then have "within (historyFile w) c (length ((n, url) # rest))
                (historyFile (snd (sendLoop e rest (sc, hc) w')))"
          unfolding f' by (rule within_mono) simp
        with lim Some sm False show ?thesis by simp
      next
        case True
        show ?thesis
        proof (cases "saveMessagedRestaurant_step (historyFile w') (clockAt e (sendCalls w'))
                        (writeOk e (sendCalls w')) n")
          case (Inl err)
          have "within (historyFile w') c (length rest)
                  (historyFile (snd (sendLoop e rest (sc, hc) w')))"
            by (rule "2.IH"(2)) (use lim Some sm True Inl ck dh f' in auto)
          then have "within (historyFile w) c (length ((n, url) # rest))
                  (historyFile (snd (sendLoop e rest (sc, hc) w')))"
            unfolding f' by (rule within_mono) simp
          with lim Some sm True Inl show ?thesis by simp
        next
          case (Inr f2)
          let ?w2 = "w'\<lparr>historyFile := f2\<rparr>"
          have f2: "f2 = saveMessagedRestaurant_cli (historyFile w) c (writeOk e (sendCalls w')) n"
            using save_step_is_cli[OF Inr] f' ck by simp
          have w1: "within (historyFile w) c 1 f2"
            unfolding f2 using dh by (rule save_cli_within)
          then have dh2: "distinctHours (historyFile ?w2)" by (simp add: within_def)
          have "within (historyFile ?w2) c (length rest)
                  (historyFile (snd (sendLoop e rest (sc + 1, hc + 1) ?w2)))"
            by (rule "2.IH"(3)) (use lim Some sm True Inr ck dh2 in auto)
          then have "within f2 c (length rest)
                  (historyFile (snd (sendLoop e rest (sc + 1, hc + 1) ?w2)))"
            by simp
          with w1 have "within (historyFile w) c (1 + length rest)
                  (historyFile (snd (sendLoop e rest (sc + 1, hc + 1) ?w2)))"
            by (rule within_trans)
          with lim Some sm True Inr show ?thesis by simp
        qed
      qed
    qed
  qed
qed

lemma handler_within_limits:
  assumes ck: "\<forall>k. clockAt e k = startClock e"
      and dh: "distinctHours (historyFile w)"
      and h: "hourly (getMessageCounts_cli (historyFile w) (startClock e)) \<le> 25"
      and d: "daily (getMessageCounts_cli (historyFile w) (startClock e)) \<le> 100"
  shows "hourly (getMessageCounts_cli (historyFile (snd (handler e location allRestaurants w)))
                  (startClock e)) \<le> 25
       \<and> daily (getMessageCounts_cli (historyFile (snd (handler e location allRestaurants w)))
                  (startClock e)) \<le> 100"
proof -
  define c where "c = startClock e"
  have same: "historyFile w' = historyFile w \<Longrightarrow>
                hourly (getMessageCounts_cli (historyFile w') c) \<le> 25
                \<and> daily (getMessageCounts_cli (historyFile w') c) \<le> 100" for w' :: world
    using h d by (simp add: c_def)
  have "hourly (getMessageCounts_cli (historyFile (snd (handlerTry e location allRestaurants w))) c)
          \<le> 25
      \<and> daily (getMessageCounts_cli (historyFile (snd (handlerTry e location allRestaurants w))) c)
          \<le> 100"
  proof (cases "getMessageCounts_step (historyFile w) (startClock e)")
    case (Inl err)
    then show ?thesis using same[of w] by (simp add: handlerTry_def)
  next
    case (Inr cnt)
    then have nc: "historyFile w \<noteq> Corrupt" by (auto simp: getMessageCounts_step_def)
    from Inr have cnt: "cnt = getMessageCounts_cli (historyFile w) c"
      by (cases "historyFile w")
         (auto simp: getMessageCounts_step_def getMessageCounts_cli_def c_def)
    define rs where "rs = (case getProp allRestaurants (toLowerCase location) of
                           None \<Rightarrow> [] | Some rs \<Rightarrow> rs)"
    obtain sel where sel: "restaurantsToMessage (historyFile w) rs = Inr sel"
      using restaurantsToMessage_filter[OF nc, of rs] by simp
    define bl where "bl = min (25 - hourly cnt) (100 - daily cnt)"
    show ?thesis
    proof (cases "hourly cnt \<ge> 25 \<or> daily cnt \<ge> 100 \<or> length sel = 0")
      case True
      with Inr sel same[of w] show ?thesis
        by (auto simp: handlerTry_def Let_def rs_def[symmetric])
    next
      case go: False
      show ?thesis
      proof (cases "init e w")
        case (Inl err)
        with Inr sel go same[of "afterInit e w"] afterInit_frame[of e w] show ?thesis
          by (auto simp: handlerTry_def Let_def rs_def[symmetric])
      next
        case w1: (Inr w1)
        from init_frame[OF w1] have f1: "historyFile w1 = historyFile w" by simp
        show ?thesis
        proof (cases "loginOk e")
          case False
          with Inr sel go w1 same[of w1] f1 show ?thesis
            by (auto simp: handlerTry_def Let_def rs_def[symmetric])
        next
          case True
          let ?w2 = "snd (sendLoop e (take bl sel) (0, hourly cnt) w1)"
          have "within (historyFile w1) c (length (take bl sel)) (historyFile ?w2)"
            using ck dh unfolding c_def f1[symmetric] by (intro sendLoop_within) auto
          then have "within (historyFile w) c bl (historyFile ?w2)"
            unfolding f1 by (rule within_mono) simp
          then have "hourly (getMessageCounts_cli (historyFile ?w2) c) \<le> hourly cnt + bl"
            and "daily (getMessageCounts_cli (historyFile ?w2) c) \<le> daily cnt + bl"
            by (simp_all add: within_def cnt)
          moreover have "hourly cnt + bl \<le> 25" and "daily cnt + bl \<le> 100"
            using go by (auto simp: bl_def min_def)
          ultimately have "hourly (getMessageCounts_cli (historyFile ?w2) c) \<le> 25
                         \<and> daily (getMessageCounts_cli (historyFile ?w2) c) \<le> 100"
            by simp
          with Inr sel go w1 True show ?thesis
            by (auto simp: handlerTry_def Let_def rs_def[symmetric] bl_def[symmetric]
                     split: prod.splits)
        qed
      qed
    qed
  qed
  then show ?thesis
    by (auto simp: handler_def close_def c_def split: prod.splits sum.splits)
qed

text \<open>
  Claim C1 says that the sends recorded in the current hour bucket never exceed 25, also
  across the locations of one run. In send-dm.ts each location starts again with
  \<^verbatim>\<open>locationDMCount = 0\<close> and \<^verbatim>\<open>currentHourlyCount = hourly\<close>, and the counts read at the
  start are 0 and 0 whatever the history holds (the path constant is still
  uninitialised). With 24 sends recorded in the current hour and two locations of one
  deliverable lead each, the run records both, 26 in the hour; it would do so too had
  the history been read at the start (\<open>mainFrom True\<close>).
\<close>

theorem script_exceeds_hourly_limit:
  "hourly (getMessageCounts_cli (Parsed busyHour) (may1 15)) = 24
   \<and> fst (main calm freshTowns (start (Parsed busyHour))) = Completed
   \<and> hourly (getMessageCounts_cli
               (historyFile (snd (main calm freshTowns (start (Parsed busyHour))))) (may1 15)) = 26
   \<and> hourly (getMessageCounts_cli
               (historyFile (snd (mainFrom True calm freshTowns (start (Parsed busyHour)))))
               (may1 15)) = 26"
  by code_simp

section \<open>Retries\<close>





section \<open>When quota is consumed\<close>

text \<open>
  Claim C4 says that every candidate for which a delivery attempt is made consumes one
  unit of hourly and daily quota, also when delivery fails. Both files count a send and
  record it inside \<^verbatim>\<open>if (success)\<close>. In the step, with the delivery to \<open>X\<close> failing and
  the one to \<open>Y\<close> succeeding, two attempts leave one send counted and recorded; in the
  script, four failed calls for \<open>X\<close> and \<open>Y\<close> leave the counts at 0.
\<close>

theorem quota_at_attempt_counterexample:
  "map attemptedName (attempts (snd (handler firstFails ''Austin'' austinXY (start Missing))))
     = [''X'', ''Y'']
   \<and> fst (handler firstFails ''Austin'' austinXY (start Missing)) = Sent 1
   \<and> getMessageCounts_cli (historyFile (snd (handler firstFails ''Austin'' austinXY (start Missing))))
        (may1 15) = \<lparr>hourly = 1, daily = 1\<rparr>
   \<and> map attemptedName (attempts (snd (main failing austinXY (start Missing))))
     = [''X'', ''X'', ''Y'', ''Y'']
   \<and> getMessageCounts_cli (historyFile (snd (main failing austinXY (start Missing))))
        (may1 15) = \<lparr>hourly = 0, daily = 0\<rparr>"
  by code_simp

text \<open>
  Claim C4 as amended. Quota is consumed when a delivery has succeeded, not when it is
  attempted: for a candidate whose delivery fails, the run goes on with its counters
  (\<^verbatim>\<open>successCount\<close> and \<^verbatim>\<open>hourlyCount\<close> in the step, \<^verbatim>\<open>locationDMCount\<close> and
  \<^verbatim>\<open>currentHourlyCount\<close> in the script) and the send history, from which the hourly and
  daily counts are read, unchanged; for a candidate whose delivery succeeds and is
  recorded, each counter goes up by one and the history is the one
  \<^verbatim>\<open>saveMessagedRestaurant\<close> leaves.
\<close>

theorem quota_is_consumed_by_success_only:
  "(hc < 25 \<and> extractInstagramUsername_step url = Some u \<longrightarrow>
      (\<not> delivers e (sendCalls w) \<longrightarrow>
         (\<exists>w'. sendLoop e ((n, url) # rest) (sc, hc) w = sendLoop e rest (sc, hc) w'
              \<and> historyFile w' = historyFile w))
    \<and> (delivers e (sendCalls w)
         \<and> saveMessagedRestaurant_step (historyFile w) (clockAt e (sendCalls w + 1))
              (writeOk e (sendCalls w + 1)) n = Inr f' \<longrightarrow>
         (\<exists>w'. sendLoop e ((n, url) # rest) (sc, hc) w = sendLoop e rest (sc + 1, hc + 1) w'
              \<and> historyFile w' = f')))
   \<and> (hc < 25 \<and> dm < bl \<and> eligible (historyFile w) (n, r)
        \<and> extractInstagramUsername_cli (instagramUrl r) = Some u'
        \<and> retryLoop e n u' (generateMessage (name r)) (False, 0) w = ((s, k), w1) \<longrightarrow>
      (\<not> s \<longrightarrow>
         restaurantLoop e bl ((n, r) # rest') (dm, hc) w = restaurantLoop e bl rest' (dm, hc) w1
         \<and> historyFile w1 = historyFile w)
    \<and> (s \<longrightarrow>
         (\<exists>w'. restaurantLoop e bl ((n, r) # rest') (dm, hc) w
                  = restaurantLoop e bl rest' (dm + 1, hc + 1) w'
              \<and> historyFile w' = saveMessagedRestaurant_cli (historyFile w)
                   (clockAt e (sendCalls w1)) (writeOk e (sendCalls w1)) n)))"
proof (intro conjI impI)
  assume "hc < 25 \<and> extractInstagramUsername_step url = Some u" "\<not> delivers e (sendCalls w)"
  with sendLoop_failed[of hc url u e w n rest sc]
  show "\<exists>w'. sendLoop e ((n, url) # rest) (sc, hc) w = sendLoop e rest (sc, hc) w'
              \<and> historyFile w' = historyFile w"
    by (intro exI[of _ "w\<lparr>sendCalls := sendCalls w + 1,
                attempts := attempts w @ [Attempt n u (generateMessage n) False]\<rparr>"]) simp
next
  assume "hc < 25 \<and> extractInstagramUsername_step url = Some u"
    "delivers e (sendCalls w)
         \<and> saveMessagedRestaurant_step (historyFile w) (clockAt e (sendCalls w + 1))
              (writeOk e (sendCalls w + 1)) n = Inr f'"
  with sendLoop_recorded[of hc url u e w n f' rest sc]
  show "\<exists>w'. sendLoop e ((n, url) # rest) (sc, hc) w = sendLoop e rest (sc + 1, hc + 1) w'
              \<and> historyFile w' = f'"
    by (intro exI[of _ "w\<lparr>sendCalls := sendCalls w + 1,
                attempts := attempts w @ [Attempt n u (generateMessage n) True],
                historyFile := f'\<rparr>"]) simp
next
  assume a: "hc < 25 \<and> dm < bl \<and> eligible (historyFile w) (n, r)
        \<and> extractInstagramUsername_cli (instagramUrl r) = Some u'
        \<and> retryLoop e n u' (generateMessage (name r)) (False, 0) w = ((s, k), w1)"
    and s: "\<not> s"
  from a have h: "hc < 25" "dm < bl" "eligible (historyFile w) (n, r)"
    "extractInstagramUsername_cli (instagramUrl r) = Some u'"
    "retryLoop e n u' (generateMessage (name r)) (False, 0) w = ((s, k), w1)" by simp_all
  from restaurantLoop_attempted[OF h, where rest = rest'] s
  show "restaurantLoop e bl ((n, r) # rest') (dm, hc) w = restaurantLoop e bl rest' (dm, hc) w1"
    by (simp only: if_False)
  from a retryLoop_calls[of e n u' "generateMessage (name r)" w s k w1]
  show "historyFile w1 = historyFile w" by simp
next
  assume a: "hc < 25 \<and> dm < bl \<and> eligible (historyFile w) (n, r)
        \<and> extractInstagramUsername_cli (instagramUrl r) = Some u'
        \<and> retryLoop e n u' (generateMessage (name r)) (False, 0) w = ((s, k), w1)"
    and s: "s"
  from a retryLoop_calls[of e n u' "generateMessage (name r)" w s k w1]
  have f: "historyFile w1 = historyFile w" by simp
  from a have h: "hc < 25" "dm < bl" "eligible (historyFile w) (n, r)"
    "extractInstagramUsername_cli (instagramUrl r) = Some u'"
    "retryLoop e n u' (generateMessage (name r)) (False, 0) w = ((s, k), w1)" by simp_all
  from restaurantLoop_attempted[OF h, where rest = rest'] s
  have "restaurantLoop e bl ((n, r) # rest') (dm, hc) w
                  = restaurantLoop e bl rest' (dm + 1, hc + 1)
                      (w1\<lparr>historyFile := saveMessagedRestaurant_cli (historyFile w1)
                               (clockAt e (sendCalls w1)) (writeOk e (sendCalls w1)) n\<rparr>)"
    by (simp only: if_True)
  with f show "\<exists>w'. restaurantLoop e bl ((n, r) # rest') (dm, hc) w
                  = restaurantLoop e bl rest' (dm + 1, hc + 1) w'
              \<and> historyFile w' = saveMessagedRestaurant_cli (historyFile w)
                   (clockAt e (sendCalls w1)) (writeOk e (sendCalls w1)) n"
    by (intro exI[of _ "w1\<lparr>historyFile := saveMessagedRestaurant_cli (historyFile w1)
                               (clockAt e (sendCalls w1)) (writeOk e (sendCalls w1)) n\<rparr>"]) simp
qed

theorem quota_is_consumed_by_success_only_witness:
  "(0::nat) < 25 \<and> extractInstagramUsername_step urlX = Some ''x''
   \<and> \<not> delivers failing (sendCalls (start Missing))
   \<and> (\<exists>w'. sendLoop failing [(''X'', urlX)] (0, 0) (start Missing) = sendLoop failing [] (0, 0) w'
            \<and> historyFile w' = Missing)
   \<and> delivers calm (sendCalls (start Missing))
   \<and> saveMessagedRestaurant_step Missing (may1 15) True ''X''
        = Inr (Parsed [(''2024-05-01'', [(''15h'', [(''X'', True)])])])
   \<and> (\<exists>w'. sendLoop calm [(''X'', urlX)] (0, 0) (start Missing) = sendLoop calm [] (1, 1) w'
            \<and> historyFile w' = Parsed [(''2024-05-01'', [(''15h'', [(''X'', True)])])])
   \<and> eligible Missing (''X'', restaurantX)
   \<and> extractInstagramUsername_cli (instagramUrl restaurantX) = Some ''x''
   \<and> fst (fst (retryLoop calm ''X'' ''x'' (generateMessage ''X'') (False, 0) (start Missing)))
   \<and> \<not> fst (fst (retryLoop failing ''X'' ''x'' (generateMessage ''X'') (False, 0) (start Missing)))
   \<and> (\<exists>w'. restaurantLoop calm 25 [(''X'', restaurantX)] (0, 0) (start Missing)
              = restaurantLoop calm 25 [] (1, 1) w'
            \<and> historyFile w' = Parsed [(''2024-05-01'', [(''15h'', [(''X'', True)])])])
   \<and> (\<exists>w'. restaurantLoop failing 25 [(''X'', restaurantX)] (0, 0) (start Missing)
              = restaurantLoop failing 25 [] (0, 0) w'
            \<and> historyFile w' = Missing)"
proof -
  have h1: "extractInstagramUsername_step urlX = Some ''x''" by code_simp
  have h2: "eligible Missing (''X'', restaurantX)"
    by (simp add: eligible_def restaurantX_def hasInstagram_def urlX_def
          isRestaurantMessaged_cli_def)
  have h3: "extractInstagramUsername_cli (instagramUrl restaurantX) = Some ''x''" by code_simp
  have nx: "name restaurantX = ''X''" by (simp add: restaurantX_def)
  have s: "historyFile (start Missing) = Missing" "sendCalls (start Missing) = 0"
    by (simp_all add: start_def)
  have d0: "\<not> delivers failing 0" and d1: "delivers calm 0"
    by (simp_all add: failing_def calm_def)
  have c: "clockAt calm k = may1 15" "writeOk calm k" for k by (simp_all add: calm_def)
  have sv: "saveMessagedRestaurant_step Missing (may1 15) True ''X''
        = Inr (Parsed [(''2024-05-01'', [(''15h'', [(''X'', True)])])])"
    by code_simp
  have svc: "saveMessagedRestaurant_cli Missing (may1 15) True ''X''
        = Parsed [(''2024-05-01'', [(''15h'', [(''X'', True)])])]"
    by code_simp
  obtain k1 w1 where r1: "retryLoop calm ''X'' ''x'' (generateMessage ''X'') (False, 0) (start Missing)
                            = ((True, k1), w1)"
    by (cases "retryLoop calm ''X'' ''x'' (generateMessage ''X'') (False, 0) (start Missing)")
       (auto simp: retryLoop_unfold sendMessage_cli_def Let_def start_def calm_def)
  obtain k2 w2 where r2: "retryLoop failing ''X'' ''x'' (generateMessage ''X'') (False, 0) (start Missing)
                            = ((False, k2), w2)"
    by (cases "retryLoop failing ''X'' ''x'' (generateMessage ''X'') (False, 0) (start Missing)")
       (auto simp: retryLoop_unfold sendMessage_cli_def Let_def start_def failing_def calm_def)
  note f = quota_is_consumed_by_success_only[where hc = 0 and url = urlX and u = "''x''"
      and n = "''X''" and rest = "[]" and sc = 0 and w = "start Missing" and e = failing
      and dm = 0 and bl = 25 and r = restaurantX and u' = "''x''" and rest' = "[]"
      and s = False and k = k2 and ?w1.0 = w2]
  note g = quota_is_consumed_by_success_only[where hc = 0 and url = urlX and u = "''x''"
      and n = "''X''" and rest = "[]" and sc = 0 and w = "start Missing" and e = calm
      and f' = "Parsed [(''2024-05-01'', [(''15h'', [(''X'', True)])])]"
      and dm = 0 and bl = 25 and r = restaurantX and u' = "''x''" and rest' = "[]"
      and s = True and k = k1 and ?w1.0 = w1]
  have a: "\<exists>w'. sendLoop failing [(''X'', urlX)] (0, 0) (start Missing) = sendLoop failing [] (0, 0) w'
            \<and> historyFile w' = Missing"
    using f h1 d0 by (simp add: s)
  have b: "\<exists>w'. sendLoop calm [(''X'', urlX)] (0, 0) (start Missing) = sendLoop calm [] (1, 1) w'
            \<and> historyFile w' = Parsed [(''2024-05-01'', [(''15h'', [(''X'', True)])])]"
    using g h1 d1 sv by (simp add: s c)
  have c1: "\<exists>w'. restaurantLoop calm 25 [(''X'', restaurantX)] (0, 0) (start Missing)
              = restaurantLoop calm 25 [] (1, 1) w'
            \<and> historyFile w' = Parsed [(''2024-05-01'', [(''15h'', [(''X'', True)])])]"
    using g h2 h3 r1 svc by (simp add: s c nx)
  have c2: "\<exists>w'. restaurantLoop failing 25 [(''X'', restaurantX)] (0, 0) (start Missing)
              = restaurantLoop failing 25 [] (0, 0) w'
            \<and> historyFile w' = Missing"
    using f h2 h3 r2 by (simp add: s nx)
  from a b c1 c2 h1 h2 h3 d0 d1 sv r1 r2 show ?thesis by (simp add: s)
qed

section \<open>A send that cannot be recorded\<close>

text \<open>
  Claim C5 says that a failure to record a successful send is fatal to the run, which
  does not go on to the next candidate. In both files \<^verbatim>\<open>saveMessagedRestaurant\<close> has the
  write in a \<^verbatim>\<open>try\<close> block, and nothing stops the loop: with every write failing, the runs
  over \<open>X\<close> and \<open>Y\<close> deliver to both, end normally and leave no history.
\<close>

theorem persistence_failure_counterexample:
  "fst (main readOnly austinXY (start Missing)) = Completed
   \<and> attempts (snd (main readOnly austinXY (start Missing)))
       = [Attempt ''X'' ''x'' (generateMessage ''X'') True,
          Attempt ''Y'' ''y'' (generateMessage ''Y'') True]
   \<and> historyFile (snd (main readOnly austinXY (start Missing))) = Missing
   \<and> fst (handler readOnly ''Austin'' austinXY (start Missing)) = Sent 0
   \<and> attempts (snd (handler readOnly ''Austin'' austinXY (start Missing)))
       = [Attempt ''X'' ''x'' (generateMessage ''X'') True,
          Attempt ''Y'' ''y'' (generateMessage ''Y'') True]
   \<and> historyFile (snd (handler readOnly ''Austin'' austinXY (start Missing))) = Missing"
  by code_simp

text \<open>
  Claim C5 as amended. If recording a successful send fails (the write fails, or the
  history cannot be parsed), the failure is not fatal to the run: the error is caught,
  the send history stays as it was, and the loop goes on with the remaining candidates.
\<close>

theorem unrecorded_send_does_not_stop_the_run:
  "(hc < 25 \<and> extractInstagramUsername_step url = Some u \<and> delivers e (sendCalls w)
      \<and> saveMessagedRestaurant_step (historyFile w) (clockAt e (sendCalls w + 1))
           (writeOk e (sendCalls w + 1)) n = Inl err \<longrightarrow>
      (\<exists>cnt' w'. sendLoop e ((n, url) # rest) (sc, hc) w = sendLoop e rest cnt' w'
           \<and> historyFile w' = historyFile w))
   \<and> (hc < 25 \<and> dm < bl \<and> eligible (historyFile w) (n, r)
        \<and> extractInstagramUsername_cli (instagramUrl r) = Some u'
        \<and> retryLoop e n u' (generateMessage (name r)) (False, 0) w = ((True, k), w1)
        \<and> (\<not> writeOk e (sendCalls w1) \<or> historyFile w = Corrupt) \<longrightarrow>
      (\<exists>cnt' w'. restaurantLoop e bl ((n, r) # rest') (dm, hc) w
                    = restaurantLoop e bl rest' cnt' w'
           \<and> historyFile w' = historyFile w))"
proof (intro conjI impI)
  assume "hc < 25 \<and> extractInstagramUsername_step url = Some u \<and> delivers e (sendCalls w)
      \<and> saveMessagedRestaurant_step (historyFile w) (clockAt e (sendCalls w + 1))
           (writeOk e (sendCalls w + 1)) n = Inl err"
  with sendLoop_unrecorded[of hc url u e w n err rest sc]
  show "\<exists>cnt' w'. sendLoop e ((n, url) # rest) (sc, hc) w = sendLoop e rest cnt' w'
           \<and> historyFile w' = historyFile w"
    by (intro exI[of _ "(sc, hc)"] exI[of _ "w\<lparr>sendCalls := sendCalls w + 1,
                attempts := attempts w @ [Attempt n u (generateMessage n) True]\<rparr>"]) simp
next
  assume a: "hc < 25 \<and> dm < bl \<and> eligible (historyFile w) (n, r)
        \<and> extractInstagramUsername_cli (instagramUrl r) = Some u'
        \<and> retryLoop e n u' (generateMessage (name r)) (False, 0) w = ((True, k), w1)
        \<and> (\<not> writeOk e (sendCalls w1) \<or> historyFile w = Corrupt)"
  from a retryLoop_calls[of e n u' "generateMessage (name r)" w True k w1]
  have f: "historyFile w1 = historyFile w" by simp
  from a have "\<not> writeOk e (sendCalls w1) \<or> historyFile w1 = Corrupt" by (simp add: f)
  then have sv: "saveMessagedRestaurant_cli (historyFile w1)
                     (clockAt e (sendCalls w1)) (writeOk e (sendCalls w1)) n = historyFile w"
    unfolding f[symmetric] by (rule save_cli_unwritten)
  from a have h: "hc < 25" "dm < bl" "eligible (historyFile w) (n, r)"
    "extractInstagramUsername_cli (instagramUrl r) = Some u'"
    "retryLoop e n u' (generateMessage (name r)) (False, 0) w = ((True, k), w1)" by simp_all
  from restaurantLoop_attempted[OF h, where rest = rest']
  have "restaurantLoop e bl ((n, r) # rest') (dm, hc) w
                  = restaurantLoop e bl rest' (dm + 1, hc + 1)
                      (w1\<lparr>historyFile := saveMessagedRestaurant_cli (historyFile w1)
                               (clockAt e (sendCalls w1)) (writeOk e (sendCalls w1)) n\<rparr>)"
    by (simp only: if_True)
  with sv show "\<exists>cnt' w'. restaurantLoop e bl ((n, r) # rest') (dm, hc) w
                    = restaurantLoop e bl rest' cnt' w'
           \<and> historyFile w' = historyFile w"
    by (intro exI[of _ "(dm + 1, hc + 1)"]
              exI[of _ "w1\<lparr>historyFile := saveMessagedRestaurant_cli (historyFile w1)
                               (clockAt e (sendCalls w1)) (writeOk e (sendCalls w1)) n\<rparr>"]) simp
qed

theorem unrecorded_send_does_not_stop_the_run_witness:
  "(0::nat) < 25 \<and> extractInstagramUsername_step urlX = Some ''x''
   \<and> delivers readOnly (sendCalls (start Missing))
   \<and> saveMessagedRestaurant_step Missing (may1 15) False ''X'' = Inl ReferenceError
   \<and> (\<exists>cnt' w'. sendLoop readOnly [(''X'', urlX)] (0, 0) (start Missing)
                   = sendLoop readOnly [] cnt' w'
            \<and> historyFile w' = Missing)
   \<and> eligible Missing (''X'', restaurantX)
   \<and> extractInstagramUsername_cli (instagramUrl restaurantX) = Some ''x''
   \<and> fst (fst (retryLoop readOnly ''X'' ''x'' (generateMessage ''X'') (False, 0) (start Missing)))
   \<and> (\<forall>k. \<not> writeOk readOnly k)
   \<and> (\<exists>cnt' w'. restaurantLoop readOnly 25 [(''X'', restaurantX)] (0, 0) (start Missing)
                   = restaurantLoop readOnly 25 [] cnt' w'
            \<and> historyFile w' = Missing)"
proof -
  have h1: "extractInstagramUsername_step urlX = Some ''x''" by code_simp
  have h2: "eligible Missing (''X'', restaurantX)"
    by (simp add: eligible_def restaurantX_def hasInstagram_def urlX_def
          isRestaurantMessaged_cli_def)
  have h3: "extractInstagramUsername_cli (instagramUrl restaurantX) = Some ''x''" by code_simp
  have nx: "name restaurantX = ''X''" by (simp add: restaurantX_def)
  have s: "historyFile (start Missing) = Missing" "sendCalls (start Missing) = 0"
    by (simp_all add: start_def)
  have d: "delivers readOnly 0" by (simp add: readOnly_def calm_def)
  have c: "clockAt readOnly k = may1 15" "\<not> writeOk readOnly k" for k
    by (simp_all add: readOnly_def calm_def)
  have sv: "saveMessagedRestaurant_step Missing (may1 15) False ''X'' = Inl ReferenceError"
    by (simp add: saveMessagedRestaurant_step_def)
  obtain k1 w1 where r1: "retryLoop readOnly ''X'' ''x'' (generateMessage ''X'') (False, 0) (start Missing)
                            = ((True, k1), w1)"
    by (cases "retryLoop readOnly ''X'' ''x'' (generateMessage ''X'') (False, 0) (start Missing)")
       (auto simp: retryLoop_unfold sendMessage_cli_def Let_def start_def readOnly_def calm_def)
  note t = unrecorded_send_does_not_stop_the_run[where hc = 0 and url = urlX and u = "''x''"
      and n = "''X''" and rest = "[]" and sc = 0 and w = "start Missing" and e = readOnly
      and err = ReferenceError and dm = 0 and bl = 25 and r = restaurantX and u' = "''x''"
      and rest' = "[]" and k = k1 and ?w1.0 = w1]
  have a: "\<exists>cnt' w'. sendLoop readOnly [(''X'', urlX)] (0, 0) (start Missing)
                   = sendLoop readOnly [] cnt' w'
            \<and> historyFile w' = Missing"
    using t h1 d sv by (simp add: s c)
  have b: "\<exists>cnt' w'. restaurantLoop readOnly 25 [(''X'', restaurantX)] (0, 0) (start Missing)
                   = restaurantLoop readOnly 25 [] cnt' w'
            \<and> historyFile w' = Missing"
    using t h2 h3 r1 by (simp add: s c nx)
  from a b h1 h2 h3 d sv r1 c show ?thesis by (simp add: s)
qed

section \<open>Closing the browser\<close>

text \<open>
  Claim C7 says that the browser is closed on every exit path of a run, also when an
  unexpected error is thrown after the browser was started. The handler of the step
  closes it in a \<^verbatim>\<open>finally\<close> block (\<open>handler_closes\<close>). The main function of send-dm.ts calls
  \<^verbatim>\<open>instagram.close()\<close> as its last statement only, outside any \<^verbatim>\<open>try\<close>: when \<^verbatim>\<open>login\<close>
  throws after \<^verbatim>\<open>init\<close> has launched the browser, the run ends with the browser running.
\<close>

theorem script_leaves_browser_open:
  "main noLogin austinXY (start Missing)
     = (Uncaught LoginError, (start Missing)\<lparr>browserOpen := True\<rparr>)
   \<and> browserOpen (snd (main noLogin austinXY (start Missing)))"
  by code_simp

end
